theory Spec2Isabelle
  imports Complex_Main "HOL-Library.Sublist"
begin

section \<open>Strings and numbers as the script's JavaScript sees them\<close>

text \<open>
  The program is one TypeScript script, \<^verbatim>\<open>src/bin/setapp.ts\<close>. Strings are modelled as
  lists of ASCII characters. A Number is a double: \<open>Num r\<close> stands for the finite double
  whose value is the rational \<open>r\<close>, and every value that the script computes or reads
  from a text is rounded to the nearest double, ties to the even significand, as
  IEEE 754 prescribes. The two zeros are one value here: the script never tells them
  apart (a Map key, \<^verbatim>\<open>!id\<close>, \<^verbatim>\<open>>\<close> and the printed text treat them alike).
\<close>

definition is_ws :: "char \<Rightarrow> bool" where
  \<comment> \<open>the ASCII members of WhiteSpace and LineTerminator\<close>
  "is_ws c = (c \<in> set [CHR 0x09, CHR 0x0A, CHR 0x0B, CHR 0x0C, CHR 0x0D, CHR '' ''])"

definition trim :: "string \<Rightarrow> string" where
  \<comment> \<open>\<^verbatim>\<open>String.prototype.trim\<close>\<close>
  "trim s = rev (dropWhile is_ws (rev (dropWhile is_ws s)))"

fun split :: "char \<Rightarrow> string \<Rightarrow> string list" where
  \<comment> \<open>\<^verbatim>\<open>s.split(c)\<close> for a one-character separator: the empty string gives one empty piece\<close>
  "split c [] = [[]]"
| "split c (x # xs) =
     (if x = c then [] # split c xs
      else (case split c xs of [] \<Rightarrow> [[x]] | y # ys \<Rightarrow> (x # y) # ys))"

definition lower_char :: "char \<Rightarrow> char" where
  "lower_char c =
     (if 65 \<le> (of_char c :: nat) \<and> (of_char c :: nat) \<le> 90 then char_of (of_char c + 32 :: nat) else c)"

definition upper_char :: "char \<Rightarrow> char" where
  "upper_char c =
     (if 97 \<le> (of_char c :: nat) \<and> (of_char c :: nat) \<le> 122 then char_of (of_char c - 32 :: nat) else c)"

definition toLowerCase :: "string \<Rightarrow> string" where
  "toLowerCase s = map lower_char s"

definition toUpperCase :: "string \<Rightarrow> string" where
  "toUpperCase s = map upper_char s"

definition is_digit :: "char \<Rightarrow> bool" where
  \<comment> \<open>the regular expression class \<^verbatim>\<open>\d\<close>, and DecimalDigit\<close>
  "is_digit c = (48 \<le> (of_char c :: nat) \<and> (of_char c :: nat) \<le> 57)"

definition digit_val :: "char \<Rightarrow> nat" where
  "digit_val c = of_char c - 48"

definition digits_val :: "string \<Rightarrow> nat" where
  \<comment> \<open>the value of a string of decimal digits: \<^verbatim>\<open>parseInt(ds, 10)\<close>\<close>
  "digits_val s = foldl (\<lambda>a c. 10 * a + digit_val c) 0 s"

definition digit_char :: "nat \<Rightarrow> char" where
  "digit_char d = char_of (48 + d)"

fun show_nat :: "nat \<Rightarrow> string" where
  "show_nat n = (if n < 10 then [digit_char n] else show_nat (n div 10) @ [digit_char (n mod 10)])"

declare show_nat.simps [simp del]

definition show_int :: "int \<Rightarrow> string" where
  \<comment> \<open>the decimal string of an integer, as a template literal prints it\<close>
  "show_int i = (if i < 0 then CHR ''-'' # show_nat (nat (- i)) else show_nat (nat i))"

datatype jsnum = NaN | Num rat | PosInfinity | NegInfinity

fun bits :: "nat \<Rightarrow> nat" where
  \<comment> \<open>the number of binary digits of a natural number\<close>
  "bits n = (if n = 0 then 0 else Suc (bits (n div 2)))"

declare bits.simps [simp del]

definition pow2 :: "int \<Rightarrow> rat" where
  "pow2 e = (if 0 \<le> e then 2 ^ nat e else 1 / 2 ^ nat (- e))"

definition ilog2 :: "rat \<Rightarrow> int" where
  \<comment> \<open>for a positive \<open>a\<close>, the exponent \<open>e\<close> with \<open>2^e \<le> a < 2^(e+1)\<close>\<close>
  "ilog2 a = (if 1 \<le> a then int (bits (nat \<lfloor>a\<rfloor>)) - 1 else - int (bits (nat (\<lceil>1 / a\<rceil> - 1))))"

definition round_half_even :: "rat \<Rightarrow> int" where
  "round_half_even q =
     (let f = \<lfloor>q\<rfloor>; r = q - of_int f in
      if r < 1 / 2 then f else if 1 / 2 < r then f + 1 else if even f then f else f + 1)"

definition double_of :: "rat \<Rightarrow> jsnum" where
  \<comment> \<open>the Number value for a real number: a significand of 53 bits, the exponents of binary64
      (subnormal below \<open>2^-1022\<close>), an infinity from \<open>2^1024\<close> on\<close>
  "double_of q =
     (if q = 0 then Num 0
      else
        let a = \<bar>q\<bar>;
            e = max (ilog2 a) (- 1022);
            ulp = pow2 (e - 52);
            r = of_int (round_half_even (a / ulp)) * ulp
        in if pow2 1024 \<le> r then (if 0 < q then PosInfinity else NegInfinity)
           else Num (if 0 < q then r else - r))"

definition neg :: "jsnum \<Rightarrow> jsnum" where
  "neg v = (case v of NaN \<Rightarrow> NaN | Num r \<Rightarrow> Num (- r)
            | PosInfinity \<Rightarrow> NegInfinity | NegInfinity \<Rightarrow> PosInfinity)"

definition scale10 :: "nat \<Rightarrow> int \<Rightarrow> rat" where
  "scale10 m e = (if 0 \<le> e then of_nat m * 10 ^ nat e else of_nat m / 10 ^ nat (- e))"

definition radix_digit :: "char \<Rightarrow> nat option" where
  "radix_digit c =
     (let k = (of_char c :: nat) in
      if 48 \<le> k \<and> k \<le> 57 then Some (k - 48)
      else if 97 \<le> k \<and> k \<le> 102 then Some (k - 87)
      else if 65 \<le> k \<and> k \<le> 70 then Some (k - 55)
      else None)"

fun radix_digits :: "nat \<Rightarrow> nat \<Rightarrow> string \<Rightarrow> nat option" where
  "radix_digits b a [] = Some a"
| "radix_digits b a (c # cs) =
     (case radix_digit c of
        Some d \<Rightarrow> if d < b then radix_digits b (b * a + d) cs else None
      | None \<Rightarrow> None)"

definition radix_val :: "nat \<Rightarrow> string \<Rightarrow> jsnum" where
  \<comment> \<open>NonDecimalIntegerLiteral after its prefix\<close>
  "radix_val b ds =
     (if ds = [] then NaN
      else (case radix_digits b 0 ds of Some n \<Rightarrow> Num (of_nat n) | None \<Rightarrow> NaN))"

definition SignedInteger :: "string \<Rightarrow> int option" where
  "SignedInteger s =
     (let ds = (case s of c # r \<Rightarrow> if c = CHR ''+'' \<or> c = CHR ''-'' then r else s | [] \<Rightarrow> s) in
      if ds \<noteq> [] \<and> list_all is_digit ds
      then Some (if take 1 s = ''-'' then - int (digits_val ds) else int (digits_val ds))
      else None)"

definition StrUnsignedDecimalLiteral :: "string \<Rightarrow> jsnum" where
  "StrUnsignedDecimalLiteral s =
     (if s = ''Infinity'' then PosInfinity
      else
        let ip = takeWhile is_digit s; r1 = dropWhile is_digit s;
            fp = (case r1 of c # r \<Rightarrow> if c = CHR ''.'' then takeWhile is_digit r else [] | [] \<Rightarrow> []);
            r2 = (case r1 of c # r \<Rightarrow> if c = CHR ''.'' then dropWhile is_digit r else r1 | [] \<Rightarrow> [])
        in if ip = [] \<and> fp = [] then NaN
           else (case r2 of
                   [] \<Rightarrow> Num (scale10 (digits_val (ip @ fp)) (- int (length fp)))
                 | c # r3 \<Rightarrow>
                     if c = CHR ''e'' \<or> c = CHR ''E''
                     then (case SignedInteger r3 of
                             Some e \<Rightarrow> Num (scale10 (digits_val (ip @ fp)) (e - int (length fp)))
                           | None \<Rightarrow> NaN)
                     else NaN))"

definition StrNumericLiteral :: "string \<Rightarrow> jsnum" where
  "StrNumericLiteral s =
     (if take 2 s = ''0x'' \<or> take 2 s = ''0X'' then radix_val 16 (drop 2 s)
      else if take 2 s = ''0o'' \<or> take 2 s = ''0O'' then radix_val 8 (drop 2 s)
      else if take 2 s = ''0b'' \<or> take 2 s = ''0B'' then radix_val 2 (drop 2 s)
      else (case s of
              c # r \<Rightarrow> if c = CHR ''+'' then StrUnsignedDecimalLiteral r
                       else if c = CHR ''-'' then neg (StrUnsignedDecimalLiteral r)
                       else StrUnsignedDecimalLiteral s
            | [] \<Rightarrow> NaN))"

definition round_MV :: "jsnum \<Rightarrow> jsnum" where
  \<comment> \<open>from the mathematical value of a literal to the Number value\<close>
  "round_MV v = (case v of Num r \<Rightarrow> double_of r | _ \<Rightarrow> v)"

definition Number :: "string \<Rightarrow> jsnum" where
  \<comment> \<open>\<^verbatim>\<open>Number(s)\<close> on a string: the StringNumericLiteral grammar of ECMAScript; a string of
      white space only converts to 0, a string outside the grammar to NaN\<close>
  "Number s = (let t = trim s in if t = [] then Num 0 else round_MV (StrNumericLiteral t))"

definition parseInt10 :: "string \<Rightarrow> jsnum" where
  \<comment> \<open>\<^verbatim>\<open>parseInt(ds, 10)\<close> on a string of decimal digits\<close>
  "parseInt10 ds = double_of (of_nat (digits_val ds))"

definition isNaN :: "jsnum \<Rightarrow> bool" where
  "isNaN v = (v = NaN)"

definition js_add :: "jsnum \<Rightarrow> jsnum \<Rightarrow> jsnum" where
  \<comment> \<open>\<open>+\<close> on two Numbers\<close>
  "js_add x y =
     (case (x, y) of
        (Num a, Num b) \<Rightarrow> double_of (a + b)
      | (NaN, _) \<Rightarrow> NaN
      | (_, NaN) \<Rightarrow> NaN
      | (PosInfinity, NegInfinity) \<Rightarrow> NaN
      | (NegInfinity, PosInfinity) \<Rightarrow> NaN
      | (Num a, v) \<Rightarrow> v
      | (v, _) \<Rightarrow> v)"

definition js_mul :: "jsnum \<Rightarrow> jsnum \<Rightarrow> jsnum" where
  \<comment> \<open>\<open>*\<close> on two Numbers\<close>
  "js_mul x y =
     (case (x, y) of
        (Num a, Num b) \<Rightarrow> double_of (a * b)
      | (NaN, _) \<Rightarrow> NaN
      | (_, NaN) \<Rightarrow> NaN
      | (Num a, v) \<Rightarrow> if a = 0 then NaN else if 0 < a then v else neg v
      | (v, Num b) \<Rightarrow> if b = 0 then NaN else if 0 < b then v else neg v
      | (v, v') \<Rightarrow> if v = v' then PosInfinity else NegInfinity)"

definition js_less :: "jsnum \<Rightarrow> jsnum \<Rightarrow> bool" where
  \<comment> \<open>\<open>x < y\<close> on two Numbers: false as soon as one is NaN\<close>
  "js_less x y =
     (case (x, y) of
        (NaN, _) \<Rightarrow> False
      | (_, NaN) \<Rightarrow> False
      | (Num a, Num b) \<Rightarrow> a < b
      | (NegInfinity, v) \<Rightarrow> v \<noteq> NegInfinity
      | (v, PosInfinity) \<Rightarrow> v \<noteq> PosInfinity
      | _ \<Rightarrow> False)"

definition Math_min :: "jsnum \<Rightarrow> jsnum \<Rightarrow> jsnum" where
  \<comment> \<open>\<^verbatim>\<open>Math.min(x, y)\<close>\<close>
  "Math_min x y = (if isNaN x \<or> isNaN y then NaN else if js_less y x then y else x)"

definition safe_integer :: "jsnum \<Rightarrow> int option" where
  \<comment> \<open>the integer a Number is equal to, when that integer is below \<open>2^53\<close> in size\<close>
  "safe_integer v =
     (case v of
        Num r \<Rightarrow> if of_int \<lfloor>r\<rfloor> = r \<and> \<bar>r\<bar> < 2 ^ 53 then Some \<lfloor>r\<rfloor> else None
      | _ \<Rightarrow> None)"

definition Number_toString :: "(jsnum \<Rightarrow> string) \<Rightarrow> jsnum \<Rightarrow> string" where
  \<comment> \<open>the text of a Number in a template literal. An integer below \<open>2^53\<close> in size prints its
      decimal digits; the text of another finite Number (its shortest digits that read back
      as the same double) is the parameter \<open>beyond\<close>\<close>
  "Number_toString beyond v =
     (case v of
        NaN \<Rightarrow> ''NaN''
      | PosInfinity \<Rightarrow> ''Infinity''
      | NegInfinity \<Rightarrow> ''-Infinity''
      | Num r \<Rightarrow> (case safe_integer v of Some i \<Rightarrow> show_int i | None \<Rightarrow> beyond v))"

definition JSON_number :: "int \<Rightarrow> jsnum" where
  \<comment> \<open>what \<^verbatim>\<open>JSON.parse\<close> (and \<^verbatim>\<open>response.json()\<close>) makes of an integer written in a document\<close>
  "JSON_number i = double_of (of_int i)"

section \<open>The catalog document and the two lookup maps\<close>

text \<open>
  The document is typed by the script's own assertion (\<open>typedJson\<close>): vendors hold
  applications, an application has an id, a name (under \<open>attributes\<close>) and a list of
  versions (under \<open>relationships\<close>), a version has an \<open>archive_url\<close>. The id of an
  application is the integer that the document spells; the script sees the Number that
  \<open>JSON.parse\<close> made of it, \<open>JSON_number\<close>.
\<close>

record version =
  archive_url :: string

record application =
  app_id :: int
  app_name :: string
  versions :: "version list"

record vendor =
  applications :: "application list"

record app_info =
  url :: string
  name :: string

text \<open>An element of \<open>appsToInstall\<close>: \<^verbatim>\<open>{ ...app, id }\<close>. The field is named \<open>id'\<close>, as
  \<open>id\<close> is the identity function of HOL.\<close>

record target = app_info +
  id' :: jsnum

record index =
  appArchiveMap :: "jsnum \<rightharpoonup> app_info"
  appNameMap :: "string \<rightharpoonup> jsnum"

definition empty_index :: index where
  "empty_index = \<lparr>appArchiveMap = Map.empty, appNameMap = Map.empty\<rparr>"

definition index_app :: "index \<Rightarrow> application \<Rightarrow> index" where
  \<comment> \<open>the body of the inner loop, lines 178 to 188\<close>
  "index_app idx app =
     (let appId = JSON_number (app_id app); appName = app_name app in
      case versions app of
        [] \<Rightarrow> idx
      | v # _ \<Rightarrow>
          idx\<lparr>appArchiveMap := (appArchiveMap idx)(appId \<mapsto> \<lparr>url = archive_url v, name = appName\<rparr>),
              appNameMap := (appNameMap idx)(toLowerCase appName \<mapsto> appId)\<rparr>)"

definition build_index :: "vendor list \<Rightarrow> index" where
  \<comment> \<open>the two nested loops, lines 175 to 190\<close>
  "build_index vendors =
     foldl (\<lambda>idx vendor. foldl index_app idx (applications vendor)) empty_index vendors"

definition entries :: "vendor list \<Rightarrow> application list" where
  \<comment> \<open>the applications that contribute to the maps, in document order\<close>
  "entries vendors = filter (\<lambda>a. versions a \<noteq> []) (concat (map applications vendors))"

section \<open>Resolving the identifiers of the command line\<close>

text \<open>
  The loop of lines 217 to 243 prints a message for an identifier it does not resolve and
  pushes a target for one it does. The outcome for one identifier is a value of
  \<open>resolution\<close>; the constructors for the three messages carry the names of the
  specification: \<open>IdNotFound\<close> is \<^verbatim>\<open>App with ID ... not found.\<close>, \<open>NameNotFound\<close> is
  \<^verbatim>\<open>App with name "..." not found.\<close>, \<open>AmbiguousToken\<close> is
  \<^verbatim>\<open>Invalid app ID: ... Use --name flag to search by name.\<close>
\<close>

datatype resolution =
    Resolved target
  | IdNotFound jsnum
  | NameNotFound string
  | AmbiguousToken string
  | Dropped  \<comment> \<open>line 235: the name map gave an id that the id map does not hold; nothing is printed\<close>

definition with_id :: "app_info \<Rightarrow> jsnum \<Rightarrow> target" where
  \<comment> \<open>\<^verbatim>\<open>{ ...app, id }\<close>\<close>
  "with_id app i = \<lparr>url = url app, name = name app, id' = i\<rparr>"

definition falsy :: "jsnum \<Rightarrow> bool" where
  \<comment> \<open>\<^verbatim>\<open>!id\<close> on a Number\<close>
  "falsy v = (v = Num 0 \<or> v = NaN)"

definition resolve :: "index \<Rightarrow> bool \<Rightarrow> string \<Rightarrow> resolution" where
  "resolve idx nameFlag identifier =
     (let appId = Number identifier in
      if \<not> isNaN appId \<and> \<not> nameFlag then
        (case appArchiveMap idx appId of
           None \<Rightarrow> IdNotFound appId
         | Some app \<Rightarrow> Resolved (with_id app appId))
      else if nameFlag then
        (case appNameMap idx (toLowerCase identifier) of
           None \<Rightarrow> NameNotFound identifier
         | Some i \<Rightarrow>
             if falsy i then NameNotFound identifier
             else (case appArchiveMap idx i of
                     Some app \<Rightarrow> Resolved (with_id app i)
                   | None \<Rightarrow> Dropped))
      else AmbiguousToken identifier)"

definition appsToInstall :: "index \<Rightarrow> bool \<Rightarrow> string list \<Rightarrow> target list" where
  "appsToInstall idx nameFlag appIdentifiers =
     concat (map (\<lambda>identifier. case resolve idx nameFlag identifier of
                                  Resolved t \<Rightarrow> [t] | _ \<Rightarrow> []) appIdentifiers)"

definition parses_as_integer :: "string \<Rightarrow> bool" where
  \<comment> \<open>the specification's words "parses as an integer", read generously: an optional sign
      and one or more decimal digits, white space allowed around them\<close>
  "parses_as_integer s = (SignedInteger (trim s) \<noteq> None)"

section \<open>The world outside the script\<close>

text \<open>
  Everything the script reads from outside is a field of \<open>env\<close>; everything it changes
  is a field of \<open>world\<close>, passed through the run. A function of the script that can
  throw returns a sum, \<open>Inl\<close> the error.
\<close>

datatype document =
    Catalog "vendor list"
  | OtherJson  \<comment> \<open>a JSON value (or \<open>undefined\<close>) of another shape: the loops of lines 175 to 190
                  throw on it\<close>

text \<open>
  The field \<open>expiry\<close> of the cache file can hold any JSON value, and line 79 tests it
  with \<^verbatim>\<open>&&\<close> and \<^verbatim>\<open>>\<close>, which coerce. An array is kept as the string that the comparison
  makes of it (\<open>toString\<close>: its elements joined by commas).
\<close>

datatype jsval =
    JUndefined  \<comment> \<open>there is no such field\<close>
  | JNull
  | JBool bool
  | JNumber jsnum
  | JString string
  | JArray string
  | JObject

definition truthy_val :: "jsval \<Rightarrow> bool" where
  "truthy_val v =
     (case v of
        JUndefined \<Rightarrow> False
      | JNull \<Rightarrow> False
      | JBool b \<Rightarrow> b
      | JNumber n \<Rightarrow> \<not> falsy n
      | JString s \<Rightarrow> s \<noteq> []
      | JArray s \<Rightarrow> True
      | JObject \<Rightarrow> True)"

definition ToNumber :: "jsval \<Rightarrow> jsnum" where
  \<comment> \<open>the Number that \<^verbatim>\<open>>\<close> compares when its other operand is a Number. An object gives NaN,
      or the conversion throws inside the \<open>try\<close> of line 76: in both cases the test fails\<close>
  "ToNumber v =
     (case v of
        JUndefined \<Rightarrow> NaN
      | JNull \<Rightarrow> Num 0
      | JBool b \<Rightarrow> Num (if b then 1 else 0)
      | JNumber n \<Rightarrow> n
      | JString s \<Rightarrow> Number s
      | JArray s \<Rightarrow> Number s
      | JObject \<Rightarrow> NaN)"

record cacheData =
  data :: document
  expiry :: jsval
  etag :: "string option"
  lastModified :: "string option"

datatype cache_file =
    NoFile
  | Unparsable  \<comment> \<open>reading or \<open>JSON.parse\<close> throws, or the file holds \<open>null\<close>, whose fields
                   cannot be read: the \<open>catch\<close> of line 84\<close>
  | Stored cacheData  \<comment> \<open>the fields of the parsed value; a value that is no object has none\<close>

record response =
  cache_control :: "string option"  \<comment> \<open>\<^verbatim>\<open>response.headers.get('cache-control')\<close>, \<open>None\<close> for null\<close>
  expires :: "string option"
  etag_header :: "string option"
  last_modified :: "string option"
  body :: document

datatype cmd =
    SudoMkdirP string
  | FindExisting string string
      \<comment> \<open>line 264: \<^verbatim>\<open>find "DIR" -maxdepth 1 -name "NAME*.app" 2>/dev/null || true\<close>\<close>
  | Curl string string bool  \<comment> \<open>url, output file, \<^verbatim>\<open>--progress-bar\<close>\<close>
  | MkdirP string
  | Unzip string string
  | FindName string string  \<comment> \<open>line 295: \<^verbatim>\<open>find "DIR" -name "PATTERN" -maxdepth 1\<close>\<close>
  | SudoMv string string
  | RmRf string string

datatype error =
    FetchFailed  \<comment> \<open>\<open>fetch\<close> or \<open>response.json()\<close> rejects\<close>
  | WriteFailed  \<comment> \<open>\<open>fs.writeFileSync\<close> throws\<close>
  | MkdirFailed  \<comment> \<open>\<open>fs.mkdirSync\<close> throws\<close>
  | ExecFailed cmd  \<comment> \<open>\<open>execSync\<close> throws: the command exits with another status than 0\<close>
  | NoAppPackage  \<comment> \<open>\<^verbatim>\<open>new Error("No .app package found in the downloaded archive")\<close>\<close>

datatype event =
    Fetch
  | MkdirSync
  | WriteFile cacheData
  | Exec cmd

datatype write_result =
    Written
  | NotOpened  \<comment> \<open>\<open>fs.writeFileSync\<close> throws before it has opened the file\<close>
  | CutShort  \<comment> \<open>it throws after it has opened the file, which it truncates: the file is left
                 empty or with a beginning of the text\<close>

record env =
  now_at_check :: nat  \<comment> \<open>\<open>Date.now()\<close> of line 78: milliseconds elapsed since the epoch\<close>
  now_at_fetch :: nat  \<comment> \<open>\<open>Date.now()\<close> of line 108\<close>
  fetch_result :: "response option"  \<comment> \<open>\<open>None\<close>: the request fails or the body is no JSON\<close>
  Date_getTime :: "string \<Rightarrow> int option"  \<comment> \<open>\<^verbatim>\<open>new Date(s).getTime()\<close>, \<open>None\<close> for NaN\<close>
  cacheDir_present :: bool  \<comment> \<open>\<^verbatim>\<open>fs.existsSync(cacheDir)\<close> of line 69\<close>
  mkdirSync_ok :: bool
  writeFileSync :: write_result
  setappDir_present :: bool  \<comment> \<open>\<^verbatim>\<open>fs.existsSync(setappDir)\<close> of line 197\<close>
  fnmatch :: "string \<Rightarrow> string \<Rightarrow> bool"
    \<comment> \<open>\<open>find -name\<close> on a pattern that \<open>glob_items\<close> below does not read\<close>
  sh_find :: "string \<Rightarrow> string list \<Rightarrow> string"
    \<comment> \<open>the output of the command of line 264 for a name that \<open>sh_dquoted\<close> below does not
        read, in a directory with the given entries\<close>
  String_beyond :: "jsnum \<Rightarrow> string"  \<comment> \<open>see \<open>Number_toString\<close>\<close>
  randomBytes :: "nat \<Rightarrow> string"  \<comment> \<open>the hexadecimal token of the n-th call\<close>
  exits_zero :: "cmd \<Rightarrow> bool"
  unzipped :: "string \<Rightarrow> string list"  \<comment> \<open>the top-level entries of the archive at a url\<close>

record world =
  cacheFile :: cache_file
  setappDir_entries :: "string list"  \<comment> \<open>the names in \<^verbatim>\<open>/Applications/Setapp\<close>\<close>
  random_calls :: nat
  trace :: "event list"  \<comment> \<open>the effects so far, oldest first\<close>

definition emit :: "event \<Rightarrow> world \<Rightarrow> world" where
  "emit e w = w\<lparr>trace := trace w @ [e]\<rparr>"

definition fetches :: "world \<Rightarrow> nat" where
  "fetches w = length (filter (\<lambda>e. e = Fetch) (trace w))"

definition is_download :: "event \<Rightarrow> bool" where
  "is_download e = (case e of Exec (Curl u f p) \<Rightarrow> True | _ \<Rightarrow> False)"

definition downloads :: "world \<Rightarrow> nat" where
  "downloads w = length (filter is_download (trace w))"

section \<open>The catalog: cache first, then the remote source\<close>

definition Date_now :: "nat \<Rightarrow> jsnum" where
  \<comment> \<open>a time value is an integer of at most 8.64e15 in size, which a double holds exactly\<close>
  "Date_now t = Num (of_nat t)"

definition useCache :: "env \<Rightarrow> world \<Rightarrow> document option" where
  \<comment> \<open>lines 74 to 87: \<open>Some json\<close> when \<open>useCache\<close> is set\<close>
  "useCache env w =
     (case cacheFile w of
        NoFile \<Rightarrow> None
      | Unparsable \<Rightarrow> None
      | Stored cacheData \<Rightarrow>
          let now = Date_now (now_at_check env) in
          if truthy_val (expiry cacheData) \<and> js_less now (ToNumber (expiry cacheData))
          then Some (data cacheData) else None)"

definition directive :: string where
  "directive = ''max-age=''"

fun match_max_age :: "string \<Rightarrow> string option" where
  \<comment> \<open>the first group of the leftmost match of \<^verbatim>\<open>/max-age=(\d+)/\<close>: the longest run of digits
      after the first \<^verbatim>\<open>max-age=\<close> that a digit follows\<close>
  "match_max_age [] = None"
| "match_max_age (c # cs) =
     (let digits = takeWhile is_digit (drop (length directive) (c # cs)) in
      if prefix directive (c # cs) \<and> digits \<noteq> [] then Some digits else match_max_age cs)"

definition maxAge :: "string option \<Rightarrow> jsnum" where
  \<comment> \<open>lines 96 to 105\<close>
  "maxAge cacheControl =
     (case cacheControl of
        None \<Rightarrow> Num 14400
      | Some cc \<Rightarrow>
          if cc = [] then Num 14400
          else (case match_max_age cc of
                  None \<Rightarrow> Num 14400
                | Some ds \<Rightarrow> if ds = [] then Num 14400 else parseInt10 ds))"

definition expiryTime :: "(string \<Rightarrow> int option) \<Rightarrow> nat \<Rightarrow> string option \<Rightarrow> string option \<Rightarrow> jsnum" where
  \<comment> \<open>lines 107 to 117\<close>
  "expiryTime getTime now cacheControl expires' =
     (let t = js_add (Date_now now) (js_mul (maxAge cacheControl) (Num 1000)) in
      case expires' of
        None \<Rightarrow> t
      | Some s \<Rightarrow>
          if s = [] then t
          else (case getTime s of
                  None \<Rightarrow> t
                | Some expiresDate \<Rightarrow> Math_min t (Num (of_int expiresDate))))"

definition JSON_stringify_number :: "jsnum \<Rightarrow> jsval" where
  \<comment> \<open>a Number written by \<^verbatim>\<open>JSON.stringify\<close> and read again: a finite one comes back as it
      was, NaN and the infinities are written as \<open>null\<close>\<close>
  "JSON_stringify_number v = (case v of Num r \<Rightarrow> JNumber v | _ \<Rightarrow> JNull)"

definition fetch_catalog :: "env \<Rightarrow> world \<Rightarrow> (error + document) \<times> world" where
  \<comment> \<open>lines 90 to 127; nothing catches what \<open>fs.writeFileSync\<close> throws\<close>
  "fetch_catalog env w =
     (let w1 = emit Fetch w in
      case fetch_result env of
        None \<Rightarrow> (Inl FetchFailed, w1)
      | Some response \<Rightarrow>
          let json = body response;
              cache = \<lparr>data = json,
                       expiry = JSON_stringify_number
                                  (expiryTime (Date_getTime env) (now_at_fetch env)
                                     (cache_control response) (expires response)),
                       etag = etag_header response,
                       lastModified = last_modified response\<rparr>;
              w2 = emit (WriteFile cache) w1
          in (case writeFileSync env of
                Written \<Rightarrow> (Inr json, w2\<lparr>cacheFile := Stored cache\<rparr>)
              | NotOpened \<Rightarrow> (Inl WriteFailed, w2)
              | CutShort \<Rightarrow> (Inl WriteFailed, w2\<lparr>cacheFile := Unparsable\<rparr>)))"

definition getCatalog :: "env \<Rightarrow> world \<Rightarrow> (error + document) \<times> world" where
  \<comment> \<open>lines 73 to 127; the name is the specification's\<close>
  "getCatalog env w =
     (case useCache env w of
        Some json \<Rightarrow> (Inr json, w)
      | None \<Rightarrow> fetch_catalog env w)"

section \<open>The shell and \<open>find\<close>\<close>

text \<open>
  Line 264 puts the name of the application between two double quotes of a command line
  for \<open>sh\<close>, and \<open>find\<close> reads the word that \<open>sh\<close> makes of it as a pattern. Both
  readings are modelled for the texts and patterns described below; the result for any other
  name is left to the environment (\<open>sh_find\<close>, \<open>fnmatch\<close>).
\<close>

definition newline :: char where
  "newline = CHR 0x0A"

definition backslash :: char where
  "backslash = CHR 0x5C"

definition sh_special :: "char \<Rightarrow> bool" where
  \<comment> \<open>the double quote, which ends the quoted text, the dollar sign and the backquote, which
      start an expansion, and the character NUL, which no argument can hold\<close>
  "sh_special c = (c \<in> set [CHR 0x22, CHR ''$'', CHR 0x60, CHR 0x00])"

fun unquote :: "string \<Rightarrow> string" where
  \<comment> \<open>between double quotes and in the absence of the special characters, a backslash is
      removed before a backslash and together with a newline, and is kept elsewhere\<close>
  "unquote (c # d # r) =
     (if c = backslash \<and> d = backslash then backslash # unquote r
      else if c = backslash \<and> d = newline then unquote r
      else c # unquote (d # r))"
| "unquote r = r"

definition sh_dquoted :: "string \<Rightarrow> string option" where
  \<comment> \<open>the word for the text between the quotes; \<open>None\<close> for a text this model does not read\<close>
  "sh_dquoted t = (if list_ex sh_special t then None else Some (unquote t))"

datatype glob_item =
    Lit char
  | AnyChar  \<comment> \<open>\<^verbatim>\<open>?\<close>\<close>
  | AnyString  \<comment> \<open>\<^verbatim>\<open>*\<close>\<close>
  | OneOf bool "char list"  \<comment> \<open>a bracket expression: negated or not, and its members\<close>

definition close_bracket :: char where
  "close_bracket = CHR 0x5D"

function glob_items :: "string \<Rightarrow> glob_item list option" where
  \<comment> \<open>the pattern as \<open>fnmatch\<close> reads it, without flags. A bracket expression is read when
      its members are plain characters: \<open>None\<close> for one that holds a range, a class or a
      backslash, and for a pattern that ends in a backslash. An opening bracket that no
      closing bracket follows stands for itself\<close>
  "glob_items [] = Some []"
| "glob_items (c # r) =
     (if c = CHR ''*'' then map_option ((#) AnyString) (glob_items r)
      else if c = CHR ''?'' then map_option ((#) AnyChar) (glob_items r)
      else if c = backslash then
        (case r of [] \<Rightarrow> None | d # r' \<Rightarrow> map_option ((#) (Lit d)) (glob_items r'))
      else if c = CHR 0x5B then
        (let negated = (r \<noteq> [] \<and> (hd r = CHR ''!'' \<or> hd r = CHR ''^''));
             r1 = (if negated then tl r else r);
             members = take 1 r1 @ takeWhile (\<lambda>x. x \<noteq> close_bracket) (drop 1 r1);
             after = dropWhile (\<lambda>x. x \<noteq> close_bracket) (drop 1 r1)
         in if r1 = [] \<or> after = [] then map_option ((#) (Lit c)) (glob_items r)
            else if list_ex (\<lambda>x. x = CHR 0x5B \<or> x = CHR ''-'' \<or> x = backslash) members then None
            else map_option ((#) (OneOf negated members)) (glob_items (tl after)))
      else map_option ((#) (Lit c)) (glob_items r))"
  by pat_completeness auto

termination
proof (relation "measure length")
  fix c :: char and r :: string and negated r1 members after
  assume a: "after = dropWhile (\<lambda>x. x \<noteq> close_bracket) (drop 1 r1)"
    and r1: "r1 = (if negated then tl r else r)"
  have "length (tl after) \<le> length after" by simp
  also have "\<dots> \<le> length (drop 1 r1)" unfolding a by (rule length_dropWhile_le)
  also have "\<dots> \<le> length r1" by simp
  also have "\<dots> \<le> length r" unfolding r1 by simp
  finally show "(tl after, c # r) \<in> measure length" by simp
qed simp_all

fun matches :: "glob_item list \<Rightarrow> string \<Rightarrow> bool" where
  "matches [] s = (s = [])"
| "matches (Lit c # p) s = (case s of [] \<Rightarrow> False | x # xs \<Rightarrow> x = c \<and> matches p xs)"
| "matches (AnyChar # p) s = (case s of [] \<Rightarrow> False | x # xs \<Rightarrow> matches p xs)"
| "matches (OneOf negated members # p) s =
     (case s of [] \<Rightarrow> False | x # xs \<Rightarrow> (x \<in> set members) \<noteq> negated \<and> matches p xs)"
| "matches (AnyString # p) s =
     (matches p s \<or> (case s of [] \<Rightarrow> False | x # xs \<Rightarrow> matches (AnyString # p) xs))"

definition name_matches :: "env \<Rightarrow> string \<Rightarrow> string \<Rightarrow> bool" where
  \<comment> \<open>the test \<^verbatim>\<open>-name PATTERN\<close> of \<open>find\<close> on a base name\<close>
  "name_matches env pattern base =
     (case glob_items pattern of
        Some items \<Rightarrow> matches items base
      | None \<Rightarrow> fnmatch env pattern base)"

section \<open>Installing one application\<close>

record install_result =
  success :: bool
  result_name :: string  \<comment> \<open>the field \<open>name\<close> of the result\<close>
  skipped :: "bool option"  \<comment> \<open>\<open>None\<close>: the result has no such field\<close>
  error :: "error option"

definition setappDir :: string where
  "setappDir = ''/Applications/Setapp''"

definition find_maxdepth1 :: "env \<Rightarrow> string \<Rightarrow> string \<Rightarrow> string list \<Rightarrow> string list" where
  \<comment> \<open>the paths that \<^verbatim>\<open>find DIR -maxdepth 1 -name PATTERN\<close> prints for a directory with
      the given entries: the starting point is tested too\<close>
  "find_maxdepth1 env dir pattern ents =
     (if name_matches env pattern (last (split (CHR ''/'') dir)) then [dir] else []) @
     map (\<lambda>n. dir @ ''/'' @ n) (filter (name_matches env pattern) ents)"

definition stdout :: "string list \<Rightarrow> string" where
  \<comment> \<open>one line for each path\<close>
  "stdout paths = concat (map (\<lambda>p. p @ [newline]) paths)"

definition existingApps :: "env \<Rightarrow> world \<Rightarrow> target \<Rightarrow> string" where
  \<comment> \<open>lines 264 to 266, for a command that does not throw: what it prints, trimmed\<close>
  "existingApps env w app =
     trim (case sh_dquoted (name app @ ''*.app'') of
             Some pattern \<Rightarrow> stdout (find_maxdepth1 env setappDir pattern (setappDir_entries w))
           | None \<Rightarrow> sh_find env (name app) (setappDir_entries w))"

definition existsSync_dest :: "world \<Rightarrow> string \<Rightarrow> bool" where
  \<comment> \<open>\<^verbatim>\<open>fs.existsSync(`${setappDir}/${appName}`)\<close>; the directory exists from line 210 on, and
      so do the paths that name it or its parent\<close>
  "existsSync_dest w appName =
     (appName \<in> set (setappDir_entries w) \<or> appName = [] \<or> appName = ''.'' \<or> appName = ''..'')"

datatype settled = Fulfilled | Rejected error

record suspended =
  tempDir :: string
  tempFile :: string
  awaited :: settled  \<comment> \<open>the promise of line 281\<close>

definition skipped_result :: "target \<Rightarrow> install_result" where
  "skipped_result app = \<lparr>success = True, result_name = name app, skipped = Some True, error = None\<rparr>"

definition installed_result :: "target \<Rightarrow> install_result" where
  "installed_result app = \<lparr>success = True, result_name = name app, skipped = None, error = None\<rparr>"

definition failed_result :: "target \<Rightarrow> error \<Rightarrow> install_result" where
  \<comment> \<open>the \<open>catch\<close> of lines 323 to 327\<close>
  "failed_result app e = \<lparr>success = False, result_name = name app, skipped = None, error = Some e\<rparr>"

definition temp_dir :: "env \<Rightarrow> world \<Rightarrow> target \<Rightarrow> string" where
  \<comment> \<open>lines 274 and 275: \<open>randomId\<close> and \<open>tempDir\<close>\<close>
  "temp_dir env w app =
     (let randomId = randomBytes env (random_calls w)
      in ''/tmp/setapp_'' @ randomId @ ''_'' @ Number_toString (String_beyond env) (id' app))"

definition installApp_start :: "env \<Rightarrow> bool \<Rightarrow> world \<Rightarrow> target \<Rightarrow> (install_result + suspended) \<times> world" where
  \<comment> \<open>lines 261 to 288: the function up to its only \<open>await\<close>. When the command of line 264
      throws (\<open>sh\<close> cannot read it, or cannot be run), the \<open>catch\<close> returns the failure. The
      executor of the promise runs \<open>curl\<close> at once; when it throws the promise is rejected\<close>
  "installApp_start env parallelFlag w app =
     (let find = FindExisting setappDir (name app); w1 = emit (Exec find) w in
      if \<not> exits_zero env find then (Inl (failed_result app (ExecFailed find)), w1)
      else if existingApps env w app \<noteq> [] then (Inl (skipped_result app), w1)
      else
        let tDir = temp_dir env w app;
            tFile = tDir @ ''.zip'';
            curl = Curl (url app) tFile (\<not> parallelFlag);
            w2 = emit (Exec curl) (w1\<lparr>random_calls := random_calls w1 + 1\<rparr>)
        in (Inr \<lparr>tempDir = tDir, tempFile = tFile,
                 awaited = (if exits_zero env curl then Fulfilled else Rejected (ExecFailed curl))\<rparr>,
            w2))"

fun place :: "env \<Rightarrow> world \<Rightarrow> string list \<Rightarrow> error option \<times> world" where
  \<comment> \<open>the loop of lines 305 to 318; \<open>Some e\<close> when \<open>sudo mv\<close> throws\<close>
  "place env w [] = (None, w)"
| "place env w (appFile # rest) =
     (if appFile = [] then place env w rest
      else
        let appName = last (split (CHR ''/'') appFile);
            destPath = setappDir @ ''/'' @ appName
        in if existsSync_dest w appName then place env w rest
           else
             let mv = SudoMv appFile destPath; w1 = emit (Exec mv) w
             in if exits_zero env mv
                then place env (w1\<lparr>setappDir_entries := setappDir_entries w1 @ [appName]\<rparr>) rest
                else (Some (ExecFailed mv), w1))"

definition appFiles :: "env \<Rightarrow> target \<Rightarrow> string \<Rightarrow> string list" where
  \<comment> \<open>lines 295 to 298, for a \<open>find\<close> that does not throw\<close>
  "appFiles env app tDir =
     split newline (trim (stdout (find_maxdepth1 env tDir ''*.app'' (unzipped env (url app)))))"

definition installApp_resume :: "env \<Rightarrow> world \<Rightarrow> target \<Rightarrow> suspended \<Rightarrow> install_result \<times> world" where
  \<comment> \<open>lines 288 to 327: the function after its \<open>await\<close>\<close>
  "installApp_resume env w app s =
     (case awaited s of
        Rejected e \<Rightarrow> (failed_result app e, w)
      | Fulfilled \<Rightarrow>
          let mkdir = MkdirP (tempDir s); w1 = emit (Exec mkdir) w in
          if \<not> exits_zero env mkdir then (failed_result app (ExecFailed mkdir), w1)
          else
            let unzip = Unzip (tempFile s) (tempDir s); w2 = emit (Exec unzip) w1 in
            if \<not> exits_zero env unzip then (failed_result app (ExecFailed unzip), w2)
            else
              let find = FindName (tempDir s) ''*.app''; w3 = emit (Exec find) w2 in
              if \<not> exits_zero env find then (failed_result app (ExecFailed find), w3)
              else
                let files = appFiles env app (tempDir s) in
                if length files = 0 then (failed_result app NoAppPackage, w3)
                else
                  (case place env w3 files of
                     (Some e, w4) \<Rightarrow> (failed_result app e, w4)
                   | (None, w4) \<Rightarrow>
                       let rm = RmRf (tempDir s) (tempFile s); w5 = emit (Exec rm) w4 in
                       if \<not> exits_zero env rm then (failed_result app (ExecFailed rm), w5)
                       else (installed_result app, w5)))"

definition installApp :: "env \<Rightarrow> bool \<Rightarrow> world \<Rightarrow> target \<Rightarrow> install_result \<times> world" where
  \<comment> \<open>the function run to its end, as \<^verbatim>\<open>await installApp(app)\<close> does\<close>
  "installApp env parallelFlag w app =
     (case installApp_start env parallelFlag w app of
        (Inl r, w1) \<Rightarrow> (r, w1)
      | (Inr s, w1) \<Rightarrow> installApp_resume env w1 app s)"

section \<open>Installing all of them\<close>

fun run_sequential :: "env \<Rightarrow> world \<Rightarrow> target list \<Rightarrow> install_result list \<times> world" where
  \<comment> \<open>lines 338 to 342\<close>
  "run_sequential env w [] = ([], w)"
| "run_sequential env w (app # apps) =
     (let (r, w1) = installApp env False w app;
          (rs, w2) = run_sequential env w1 apps
      in (r # rs, w2))"

text \<open>
  Line 334 calls \<open>installApp\<close> for every target in turn; each call runs up to its
  \<open>await\<close> and hands back a promise. While line 335 waits, the jobs queued by the awaits
  run in the order they were queued, each to the end of its function, and \<open>Promise.all\<close>
  puts the value of the i-th promise at index i.
\<close>

fun start_all :: "env \<Rightarrow> world \<Rightarrow> target list \<Rightarrow> (target \<times> (install_result + suspended)) list \<times> world" where
  "start_all env w [] = ([], w)"
| "start_all env w (app # apps) =
     (let (p, w1) = installApp_start env True w app;
          (ps, w2) = start_all env w1 apps
      in ((app, p) # ps, w2))"

fun settle_all :: "env \<Rightarrow> world \<Rightarrow> (target \<times> (install_result + suspended)) list \<Rightarrow> install_result list \<times> world" where
  "settle_all env w [] = ([], w)"
| "settle_all env w ((app, p) # ps) =
     (let (r, w1) = (case p of Inl r \<Rightarrow> (r, w) | Inr s \<Rightarrow> installApp_resume env w app s);
          (rs, w2) = settle_all env w1 ps
      in (r # rs, w2))"

definition run_parallel :: "env \<Rightarrow> world \<Rightarrow> target list \<Rightarrow> install_result list \<times> world" where
  \<comment> \<open>lines 334 and 335\<close>
  "run_parallel env w apps = (let (ps, w1) = start_all env w apps in settle_all env w1 ps)"

definition results :: "env \<Rightarrow> bool \<Rightarrow> world \<Rightarrow> target list \<Rightarrow> install_result list \<times> world" where
  \<comment> \<open>lines 330 to 343\<close>
  "results env parallelFlag w apps =
     (if parallelFlag then run_parallel env w apps else run_sequential env w apps)"

section \<open>The script from its first line to its exit\<close>

record outcome =
  exit_code :: nat
  install_results :: "install_result list"
  world_after :: world

definition exit' :: "nat \<Rightarrow> world \<Rightarrow> outcome" where
  "exit' c w = \<lparr>exit_code = c, install_results = [], world_after = w\<rparr>"

definition truthy :: "string option \<Rightarrow> bool" where
  \<comment> \<open>\<open>undefined\<close> and the empty string are falsy\<close>
  "truthy s = (s \<noteq> None \<and> s \<noteq> Some [])"

definition parse_args :: "string list \<Rightarrow> string option \<times> string list \<times> bool \<times> bool" where
  \<comment> \<open>lines 8 to 32: \<open>command\<close> is read before the flags are spliced out\<close>
  "parse_args argv =
     (let command = (case argv of [] \<Rightarrow> None | c # _ \<Rightarrow> Some c);
          nameFlag = (''--name'' \<in> set argv);
          args1 = remove1 ''--name'' argv;
          parallelFlag = (''--parallel'' \<in> set args1);
          args2 = remove1 ''--parallel'' args1;
          appIdentifiers = (if truthy command then drop 1 args2 else [])
      in (command, appIdentifiers, nameFlag, parallelFlag))"

definition ensure_cacheDir :: "env \<Rightarrow> world \<Rightarrow> error option \<times> world" where
  \<comment> \<open>lines 69 to 71; a directory just made holds no cache file\<close>
  "ensure_cacheDir env w =
     (if cacheDir_present env then (None, w)
      else if mkdirSync_ok env then (None, emit MkdirSync (w\<lparr>cacheFile := NoFile\<rparr>))
           else (Some MkdirFailed, emit MkdirSync w))"

definition ensure_setappDir :: "env \<Rightarrow> world \<Rightarrow> error option \<times> world" where
  \<comment> \<open>lines 196 to 210; a directory just made is empty\<close>
  "ensure_setappDir env w =
     (if setappDir_present env then (None, w)
      else
        let mkdir = SudoMkdirP setappDir; w1 = emit (Exec mkdir) w in
        if exits_zero env mkdir then (None, w1\<lparr>setappDir_entries := []\<rparr>)
        else (Some (ExecFailed mkdir), w1))"

definition main :: "env \<Rightarrow> world \<Rightarrow> string list \<Rightarrow> outcome" where
  \<comment> \<open>the whole script on the arguments \<^verbatim>\<open>process.argv.slice(2)\<close>. An exception that nothing
      catches ends the process with status 1, as \<^verbatim>\<open>process.exit(1)\<close> does; reaching the
      last line ends it with status 0\<close>
  "main env w argv =
     (case parse_args argv of (command, appIdentifiers, nameFlag, parallelFlag) \<Rightarrow>
      if \<not> truthy command \<or> (command = Some ''install'' \<and> appIdentifiers = []) then exit' 1 w
      else
        (case ensure_cacheDir env w of
           (Some e, w0) \<Rightarrow> exit' 1 w0
         | (None, w0) \<Rightarrow>
             (case getCatalog env w0 of
                (Inl e, w1) \<Rightarrow> exit' 1 w1
              | (Inr OtherJson, w1) \<Rightarrow> exit' 1 w1
              | (Inr (Catalog vendors), w1) \<Rightarrow>
                  (case ensure_setappDir env w1 of
                     (Some e, w2) \<Rightarrow> exit' 1 w2
                   | (None, w2) \<Rightarrow>
                       if command = Some ''install'' then
                         (let apps = appsToInstall (build_index vendors) nameFlag appIdentifiers in
                          if apps = [] then exit' 1 w2
                          else (case results env parallelFlag w2 apps of
                                  (rs, w3) \<Rightarrow> \<lparr>exit_code = 0, install_results = rs, world_after = w3\<rparr>))
                       else if command = Some ''list'' then exit' 0 w2
                       else exit' 0 w2  \<comment> \<open>lines 371 to 374: two messages, no \<open>process.exit\<close>\<close>))))"

section \<open>A concrete world\<close>

text \<open>
  One environment on which the definitions are evaluated: a catalog of four applications
  (the last without a version) and a shell in which every command succeeds.
\<close>

definition demo_catalog :: "vendor list" where
  "demo_catalog =
     [\<lparr>applications =
         [\<lparr>app_id = 42, app_name = ''Foo'', versions = [\<lparr>archive_url = ''http://x/a.zip''\<rparr>]\<rparr>,
          \<lparr>app_id = 7, app_name = ''Bar'', versions = [\<lparr>archive_url = ''http://x/b.zip''\<rparr>]\<rparr>]\<rparr>,
      \<lparr>applications =
         [\<lparr>app_id = 8, app_name = ''Baz'',
           versions = [\<lparr>archive_url = ''http://x/c.zip''\<rparr>, \<lparr>archive_url = ''http://x/old.zip''\<rparr>]\<rparr>,
          \<lparr>app_id = 9, app_name = ''Ghost'', versions = []\<rparr>]\<rparr>]"

definition demo_response :: response where
  "demo_response =
     \<lparr>cache_control = Some ''public, max-age=7200'',
      expires = Some ''Thu, 01 Jan 1970 01:16:40 GMT'',
      etag_header = None,
      last_modified = None,
      body = Catalog demo_catalog\<rparr>"

definition demo_env :: env where
  "demo_env =
     \<lparr>now_at_check = 1000000,
      now_at_fetch = 1000000,
      fetch_result = Some demo_response,
      Date_getTime = (\<lambda>s. if s = ''Thu, 01 Jan 1970 01:16:40 GMT'' then Some 4600000 else None),
      cacheDir_present = True,
      mkdirSync_ok = True,
      writeFileSync = Written,
      setappDir_present = True,
      fnmatch = (\<lambda>p s. False),
      sh_find = (\<lambda>n es. []),
      String_beyond = (\<lambda>v. []),
      randomBytes = (\<lambda>n. ''000000000000000'' @ show_nat n),
      exits_zero = (\<lambda>c. True),
      unzipped = (\<lambda>u. if u = ''http://x/a.zip'' then [''Foo.app'', ''README.txt'']
                       else if u = ''http://x/c.zip'' then [''Baz.app'']
                       else if u = ''http://x/d.zip'' then [''App [Beta].app'']
                       else [''README.txt''])\<rparr>"

definition demo_world :: world where
  "demo_world = \<lparr>cacheFile = NoFile, setappDir_entries = [], random_calls = 0, trace = []\<rparr>"

definition Foo :: target where
  "Foo = \<lparr>url = ''http://x/a.zip'', name = ''Foo'', id' = Num 42\<rparr>"

definition Bar :: target where
  "Bar = \<lparr>url = ''http://x/b.zip'', name = ''Bar'', id' = Num 7\<rparr>"

definition Baz :: target where
  "Baz = \<lparr>url = ''http://x/c.zip'', name = ''Baz'', id' = Num 8\<rparr>"

definition Beta :: target where
  \<comment> \<open>an application whose name holds a bracket expression\<close>
  "Beta = \<lparr>url = ''http://x/d.zip'', name = ''App [Beta]'', id' = Num 5\<rparr>"

definition Bar_zip :: string where
  \<comment> \<open>where the second download of a run stores the archive of Bar\<close>
  "Bar_zip = ''/tmp/setapp_0000000000000001_7.zip''"

definition corrupt_env :: env where
  \<comment> \<open>as \<open>demo_env\<close>, but \<open>unzip\<close> fails on the archive of Bar\<close>
  "corrupt_env =
     demo_env\<lparr>exits_zero := (\<lambda>c. case c of Unzip f d \<Rightarrow> f \<noteq> Bar_zip | _ \<Rightarrow> True)\<rparr>"

definition offline_env :: env where
  \<comment> \<open>as \<open>demo_env\<close>, but every download fails\<close>
  "offline_env =
     demo_env\<lparr>exits_zero := (\<lambda>c. case c of Curl u f p \<Rightarrow> False | _ \<Rightarrow> True)\<rparr>"

definition no_shell_env :: env where
  \<comment> \<open>as \<open>demo_env\<close>, but the command of line 264 throws\<close>
  "no_shell_env =
     demo_env\<lparr>exits_zero := (\<lambda>c. case c of FindExisting d n \<Rightarrow> False | _ \<Rightarrow> True)\<rparr>"

definition no_mkdir_env :: env where
  \<comment> \<open>as \<open>demo_env\<close>, but \<open>mkdir\<close> fails\<close>
  "no_mkdir_env =
     demo_env\<lparr>exits_zero := (\<lambda>c. case c of MkdirP d \<Rightarrow> False | _ \<Rightarrow> True)\<rparr>"

definition no_find_env :: env where
  \<comment> \<open>as \<open>demo_env\<close>, but the \<open>find\<close> of line 295 fails\<close>
  "no_find_env =
     demo_env\<lparr>exits_zero := (\<lambda>c. case c of FindName d p \<Rightarrow> False | _ \<Rightarrow> True)\<rparr>"

definition no_sudo_env :: env where
  \<comment> \<open>as \<open>demo_env\<close>, but \<open>sudo mv\<close> fails\<close>
  "no_sudo_env =
     demo_env\<lparr>exits_zero := (\<lambda>c. case c of SudoMv a b \<Rightarrow> False | _ \<Rightarrow> True)\<rparr>"

definition no_rm_env :: env where
  \<comment> \<open>as \<open>demo_env\<close>, but \<open>rm\<close> fails\<close>
  "no_rm_env =
     demo_env\<lparr>exits_zero := (\<lambda>c. case c of RmRf d f \<Rightarrow> False | _ \<Rightarrow> True)\<rparr>"

definition readonly_env :: env where
  \<comment> \<open>as \<open>demo_env\<close>, but the cache file cannot be opened for writing\<close>
  "readonly_env = demo_env\<lparr>writeFileSync := NotOpened\<rparr>"

definition full_disk_env :: env where
  \<comment> \<open>as \<open>demo_env\<close>, but writing the cache file fails after the file was opened\<close>
  "full_disk_env = demo_env\<lparr>writeFileSync := CutShort\<rparr>"



definition shadow_catalog :: "vendor list" where
  \<comment> \<open>two applications whose names differ in case only\<close>
  "shadow_catalog =
     [\<lparr>applications =
         [\<lparr>app_id = 1, app_name = ''Foo'', versions = [\<lparr>archive_url = ''http://x/a.zip''\<rparr>]\<rparr>,
          \<lparr>app_id = 2, app_name = ''foo'', versions = [\<lparr>archive_url = ''http://x/b.zip''\<rparr>]\<rparr>]\<rparr>]"

definition installed_world :: world where
  \<comment> \<open>a destination that holds a bundle of Foo under a longer name\<close>
  "installed_world = demo_world\<lparr>setappDir_entries := [''Bar.app'', ''Foo 2.app'']\<rparr>"

definition beta_world :: world where
  \<comment> \<open>a destination that holds the bundle of Beta\<close>
  "beta_world = demo_world\<lparr>setappDir_entries := [''App [Beta].app'']\<rparr>"

definition after_Foo :: world where
  \<comment> \<open>the destination and the count of random tokens once Foo is installed\<close>
  "after_Foo = demo_world\<lparr>setappDir_entries := [''Foo.app''], random_calls := 1\<rparr>"

section \<open>Predicates of the statements\<close>

definition outcome_of :: "target \<Rightarrow> install_result \<Rightarrow> bool" where
  \<comment> \<open>a result that \<open>installApp\<close> can return for this target: it carries the target's name, and
      either it is a success without an error or a failure with one\<close>
  "outcome_of app r =
     (result_name r = name app \<and>
      (if success r then error r = None \<and> (skipped r = None \<or> skipped r = Some True)
       else error r \<noteq> None \<and> skipped r = None))"

definition before_placing :: "error \<Rightarrow> bool" where
  \<comment> \<open>the errors of downloading, extracting and locating\<close>
  "before_placing e =
     (case e of
        ExecFailed c \<Rightarrow> (case c of Curl u f p \<Rightarrow> True | MkdirP d \<Rightarrow> True | Unzip f d \<Rightarrow> True
                         | FindName d p \<Rightarrow> True | FindExisting d n \<Rightarrow> True | _ \<Rightarrow> False)
      | NoAppPackage \<Rightarrow> True
      | _ \<Rightarrow> False)"



definition index_inv :: "index \<Rightarrow> bool" where
  \<comment> \<open>every name of the name map leads to an id that the id map holds\<close>
  "index_inv idx = (\<forall>k i. appNameMap idx k = Some i \<longrightarrow> appArchiveMap idx i \<noteq> None)"

definition started_ok :: "target \<times> (install_result + suspended) \<Rightarrow> bool" where
  \<comment> \<open>a call that has returned before its \<open>await\<close> has returned the skipped result, or the
      failure of its first command\<close>
  "started_ok ap =
     (case snd ap of
        Inl r \<Rightarrow> r = skipped_result (fst ap) \<or>
                 r = failed_result (fst ap) (ExecFailed (FindExisting setappDir (name (fst ap))))
      | Inr s \<Rightarrow> True)"


definition plain_name :: "string \<Rightarrow> bool" where
  \<comment> \<open>a name without the characters that \<open>sh\<close> reads between double quotes (double quote,
      dollar sign, backquote, backslash, NUL) and without an opening bracket\<close>
  "plain_name n = (\<forall>c \<in> set n. \<not> sh_special c \<and> c \<noteq> backslash \<and> c \<noteq> CHR 0x5B)"

definition item_of :: "char \<Rightarrow> glob_item" where
  \<comment> \<open>what a character other than a backslash and an opening bracket is in a pattern\<close>
  "item_of c = (if c = CHR ''*'' then AnyString else if c = CHR ''?'' then AnyChar else Lit c)"

definition commands_before_placing :: "env \<Rightarrow> bool \<Rightarrow> world \<Rightarrow> target \<Rightarrow> cmd list" where
  \<comment> \<open>the commands of lines 283 to 295 for a target that is not skipped, in their order\<close>
  "commands_before_placing env parallelFlag w app =
     (let tDir = temp_dir env w app; tFile = tDir @ ''.zip'' in
      [Curl (url app) tFile (\<not> parallelFlag), MkdirP tDir, Unzip tFile tDir,
       FindName tDir ''*.app''])"

definition sudo_mv :: "string \<Rightarrow> cmd" where
  \<comment> \<open>the command of line 314 for a located bundle\<close>
  "sudo_mv appFile = SudoMv appFile (setappDir @ ''/'' @ last (split (CHR ''/'') appFile))"

section \<open>Facts about rounding\<close>

lemma bits_bounds: "0 < n \<Longrightarrow> 2 ^ (bits n - 1) \<le> n \<and> n < 2 ^ bits n"
proof (induction n rule: bits.induct)
  case (1 n)
  show ?case
  proof (cases "n div 2 = 0")
    case True
    with 1 have "n = 1" by (simp add: div_eq_0_iff) 
    then show ?thesis by (simp add: bits.simps [of "Suc 0"] bits.simps [of 0])
  next
    case False
    then have ih: "2 ^ (bits (n div 2) - 1) \<le> n div 2 \<and> n div 2 < 2 ^ bits (n div 2)"
      using 1 by simp
    have b: "bits n = Suc (bits (n div 2))" using 1(2) by (subst bits.simps) simp
    have p: "0 < bits (n div 2)" using False by (subst bits.simps) simp
    then have s: "(2::nat) ^ bits (n div 2) = 2 * 2 ^ (bits (n div 2) - 1)"
      by (cases "bits (n div 2)") simp_all
    from ih have "2 * 2 ^ (bits (n div 2) - 1) \<le> n" by linarith
    then have lo: "2 ^ bits (n div 2) \<le> n" by (simp only: s)
    from ih have hi: "n < 2 * 2 ^ bits (n div 2)" by linarith
    from lo hi show ?thesis unfolding b by simp
  qed
qed

lemma bits_unique:
  assumes "2 ^ k \<le> n" "n < 2 ^ Suc k"
  shows "bits n = Suc k"
proof -
  from assms have n: "0 < n" by (cases n) auto
  from bits_bounds [OF n] have lo: "2 ^ (bits n - 1) \<le> n" and hi: "n < 2 ^ bits n" by auto
  have "(2::nat) ^ k < 2 ^ bits n" using assms(1) hi by linarith
  then have 1: "k < bits n" by (rule power_less_imp_less_exp [rotated]) simp
  have "(2::nat) ^ (bits n - 1) < 2 ^ Suc k" using assms(2) lo by linarith
  then have 2: "bits n - 1 < Suc k" by (rule power_less_imp_less_exp [rotated]) simp
  from 1 2 show ?thesis by linarith
qed


lemma pow2_pos [simp]: "0 < pow2 e"
  by (simp add: pow2_def)

lemma pow2_nat: "pow2 (int k) = 2 ^ k"
  by (simp add: pow2_def)

lemma pow2_neg: "pow2 (- int (Suc k)) = 1 / 2 ^ Suc k"
  by (simp add: pow2_def nat_add_distrib)

lemma pow2_ge_one: "0 \<le> e \<Longrightarrow> 1 \<le> pow2 e"
  by (simp add: pow2_def)

lemma pow2_le_one: "e \<le> 0 \<Longrightarrow> pow2 e \<le> 1"
proof (cases "e = 0")
  case True
  then show ?thesis by (simp add: pow2_def)
next
  case False
  assume "e \<le> 0"
  with False have "e < 0" by simp
  moreover have "(1::rat) \<le> 2 ^ nat (- e)" by (rule one_le_power) simp
  ultimately show ?thesis by (simp add: pow2_def)
qed

lemma pow2_less_one: "e < 0 \<Longrightarrow> pow2 e < 1"
proof -
  assume e: "e < 0"
  then obtain k where k: "nat (- e) = Suc k" by (cases "nat (- e)") auto
  have "(1::rat) < 2 ^ Suc k" by (rule one_less_power) simp_all
  then show ?thesis using e by (simp add: pow2_def k)
qed

lemma nat_floor_bounds:
  assumes "(2::rat) ^ k \<le> a" "a < 2 ^ Suc k"
  shows "2 ^ k \<le> nat \<lfloor>a\<rfloor> \<and> nat \<lfloor>a\<rfloor> < 2 ^ Suc k"
proof -
  have "(of_int (2 ^ k) :: rat) \<le> a" using assms(1) by simp
  then have 1: "2 ^ k \<le> \<lfloor>a\<rfloor>" by (simp only: le_floor_iff)
  have "a < of_int (2 ^ Suc k)" using assms(2) by simp
  then have 2: "\<lfloor>a\<rfloor> < 2 ^ Suc k" by (simp only: floor_less_iff)
  have "(0::int) \<le> 2 ^ k" by simp
  from this 1 have 0: "0 \<le> \<lfloor>a\<rfloor>" by (rule order_trans)
  have "int (2 ^ k) \<le> int (nat \<lfloor>a\<rfloor>)" using 0 1 by simp
  then have 3: "2 ^ k \<le> nat \<lfloor>a\<rfloor>" by (simp only: of_nat_le_iff)
  have "int (nat \<lfloor>a\<rfloor>) < int (2 ^ Suc k)" using 0 2 by simp
  then have 4: "nat \<lfloor>a\<rfloor> < 2 ^ Suc k" by (simp only: of_nat_less_iff)
  from 3 4 show ?thesis ..
qed

lemma nat_ceiling_bounds:
  assumes "(2::rat) ^ k < b" "b \<le> 2 ^ Suc k"
  shows "2 ^ k \<le> nat (\<lceil>b\<rceil> - 1) \<and> nat (\<lceil>b\<rceil> - 1) < 2 ^ Suc k"
proof -
  have "(of_int (2 ^ k) :: rat) < b" using assms(1) by simp
  then have "2 ^ k < \<lceil>b\<rceil>" by (simp only: less_ceiling_iff)
  then have 1: "2 ^ k \<le> \<lceil>b\<rceil> - 1" by simp
  have "b \<le> of_int (2 ^ Suc k)" using assms(2) by simp
  then have "\<lceil>b\<rceil> \<le> 2 ^ Suc k" by (simp only: ceiling_le_iff)
  then have 2: "\<lceil>b\<rceil> - 1 < 2 ^ Suc k" by simp
  have "(0::int) \<le> 2 ^ k" by simp
  from this 1 have 0: "0 \<le> \<lceil>b\<rceil> - 1" by (rule order_trans)
  have "int (2 ^ k) \<le> int (nat (\<lceil>b\<rceil> - 1))" using 0 1 by simp
  then have 3: "2 ^ k \<le> nat (\<lceil>b\<rceil> - 1)" by (simp only: of_nat_le_iff)
  have "int (nat (\<lceil>b\<rceil> - 1)) < int (2 ^ Suc k)" using 0 2 by simp
  then have 4: "nat (\<lceil>b\<rceil> - 1) < 2 ^ Suc k" by (simp only: of_nat_less_iff)
  from 3 4 show ?thesis ..
qed

lemma ilog2_unique:
  assumes "pow2 e \<le> a" "a < pow2 (e + 1)"
  shows "ilog2 a = e"
proof (cases "1 \<le> a")
  case True
  have e0: "0 \<le> e"
  proof (rule ccontr)
    assume "\<not> 0 \<le> e"
    then have "pow2 (e + 1) \<le> 1" by (intro pow2_le_one) simp
    with assms(2) True show False by simp
  qed
  define k where "k = nat e"
  have e: "e = int k" using e0 by (simp add: k_def)
  have e1: "e + 1 = int (Suc k)" using e by simp
  have lo: "(2::rat) ^ k \<le> a" using assms(1) by (simp only: e pow2_nat)
  have hi: "a < 2 ^ Suc k" using assms(2) by (simp only: e1 pow2_nat)
  from nat_floor_bounds [OF lo hi] have "bits (nat \<lfloor>a\<rfloor>) = Suc k" by (intro bits_unique) simp_all
  then show ?thesis using True by (simp add: ilog2_def e)
next
  case False
  then have a1: "a < 1" by simp
  have a0: "0 < a" using assms(1) pow2_pos [of e] by (rule less_le_trans [rotated])
  have en: "e < 0"
  proof (rule ccontr)
    assume "\<not> e < 0"
    then have "1 \<le> pow2 e" by (intro pow2_ge_one) simp
    with assms(1) a1 show False by simp
  qed
  define k where "k = nat (- e) - 1"
  have e: "e = - int (Suc k)" using en by (simp add: k_def)
  have e1: "e + 1 = - int k" using e by simp
  have "1 / 2 ^ Suc k \<le> a" using assms(1) by (simp only: e pow2_neg)
  then have "1 \<le> a * 2 ^ Suc k" by (simp only: pos_divide_le_eq zero_less_power zero_less_numeral)
  then have "1 \<le> 2 ^ Suc k * a" by (simp only: mult.commute)
  then have bhi: "1 / a \<le> 2 ^ Suc k" using a0 by (simp only: pos_divide_le_eq)
  have "a < 1 / 2 ^ k"
  proof (cases k)
    case 0
    then show ?thesis using a1 by simp
  next
    case (Suc j)
    then show ?thesis using assms(2) by (simp only: e1 pow2_neg)
  qed
  then have "a * 2 ^ k < 1" by (simp only: pos_less_divide_eq zero_less_power zero_less_numeral)
  then have "2 ^ k * a < 1" by (simp only: mult.commute)
  then have blo: "2 ^ k < 1 / a" using a0 by (simp only: pos_less_divide_eq)
  from nat_ceiling_bounds [OF blo bhi] have "bits (nat (\<lceil>1 / a\<rceil> - 1)) = Suc k"
    by (intro bits_unique) simp_all
  then show ?thesis using False by (simp add: ilog2_def e)
qed

lemma round_half_even_near:
  assumes "\<bar>q - of_int m\<bar> < 1 / 2"
  shows "round_half_even q = m"
proof -
  from assms have a: "q - of_int m < 1 / 2 \<and> - (q - of_int m) < 1 / 2"
    by (simp only: abs_less_iff)
  from a have lo: "of_int m - 1 / 2 < q" by linarith
  from a have hi: "q < of_int m + 1 / 2" by linarith
  have "of_int (m - 1) \<le> q" using lo by simp
  then have 1: "m - 1 \<le> \<lfloor>q\<rfloor>" by (simp only: le_floor_iff)
  have "q < of_int (m + 1)" using hi by simp
  then have 2: "\<lfloor>q\<rfloor> < m + 1" by (simp only: floor_less_iff)
  from 1 2 have "\<lfloor>q\<rfloor> = m \<or> \<lfloor>q\<rfloor> = m - 1" by arith
  then show ?thesis
  proof
    assume f: "\<lfloor>q\<rfloor> = m"
    have "q - of_int m < 1 / 2" using hi by simp
    then show ?thesis by (simp add: round_half_even_def f Let_def)
  next
    assume f: "\<lfloor>q\<rfloor> = m - 1"
    have "1 / 2 < q - of_int (m - 1)" using lo by simp
    then show ?thesis by (simp add: round_half_even_def f Let_def)
  qed
qed

lemma double_ofI:
  assumes "0 < q" "pow2 e \<le> q" "q < pow2 (e + 1)" "- 1022 \<le> e"
    and "round_half_even (q / pow2 (e - 52)) = m"
    and "of_int m * pow2 (e - 52) < pow2 1024"
  shows "double_of q = Num (of_int m * pow2 (e - 52))"
proof -
  have a: "\<bar>q\<bar> = q" using assms(1) by simp
  have i: "ilog2 q = e" using assms(2,3) by (rule ilog2_unique)
  have m: "max e (- 1022) = e" using assms(4) by simp
  have r: "round_half_even (q / pow2 (e - 52)) = m" by (rule assms(5))
  have n: "\<not> pow2 1024 \<le> of_int m * pow2 (e - 52)" using assms(6) by simp
  have z: "q \<noteq> 0" using assms(1) by simp
  show ?thesis unfolding double_of_def Let_def a i m r using n z assms(1) by simp
qed

lemma double_of_nat_exact:
  assumes "n < 2 ^ 53"
  shows "double_of (of_nat n) = Num (of_nat n)"
proof (cases "n = 0")
  case True
  then show ?thesis by (simp add: double_of_def)
next
  case False
  then have n0: "0 < n" by simp
  define k where "k = bits n - 1"
  from bits_bounds [OF n0] have lo: "2 ^ k \<le> n" and hi: "n < 2 ^ bits n" by (simp_all add: k_def)
  have bp: "0 < bits n" using n0 by (subst bits.simps) simp
  then have bk: "bits n = Suc k" by (simp add: k_def)
  have "(2::nat) ^ k < 2 ^ 53" using lo assms by (rule le_less_trans)
  then have k53: "k < 53" by (rule power_less_imp_less_exp [rotated]) simp
  define j where "j = 52 - k"
  have kj: "k + j = 52" using k53 by (simp add: j_def)
  have 1: "0 < (of_nat n :: rat)" using n0 by simp
  have "(of_nat (2 ^ k) :: rat) \<le> of_nat n" using lo by (simp only: of_nat_le_iff)
  then have 2: "pow2 (int k) \<le> of_nat n" by (simp add: pow2_nat)
  have "(of_nat n :: rat) < of_nat (2 ^ Suc k)" using hi unfolding bk by (simp only: of_nat_less_iff)
  then have 3: "of_nat n < pow2 (int k + 1)" using pow2_nat [of "Suc k"] by (simp add: add.commute)
  have 4: "- 1022 \<le> int k" by simp
  have u: "pow2 (int k - 52) = 1 / 2 ^ j"
  proof (cases j)
    case 0
    then have "int k - 52 = 0" using kj by simp
    then show ?thesis using 0 by (simp add: pow2_def)
  next
    case (Suc i)
    then have "int k - 52 = - int (Suc i)" using kj by simp
    then show ?thesis using Suc by (simp only: pow2_neg)
  qed
  have q: "of_nat n / pow2 (int k - 52) = of_int (int (n * 2 ^ j))" by (simp add: u)
  have "\<bar>of_nat n / pow2 (int k - 52) - of_int (int (n * 2 ^ j))\<bar> < 1 / 2" unfolding q by simp
  then have 5: "round_half_even (of_nat n / pow2 (int k - 52)) = int (n * 2 ^ j)"
    by (rule round_half_even_near)
  have v: "of_int (int (n * 2 ^ j)) * pow2 (int k - 52) = (of_nat n :: rat)" by (simp add: u)
  have "(of_nat n :: rat) < of_nat (2 ^ 53)" using assms by (simp only: of_nat_less_iff)
  also have "\<dots> < pow2 1024" by (simp add: pow2_def)
  finally have 6: "of_int (int (n * 2 ^ j)) * pow2 (int k - 52) < pow2 1024" by (simp only: v)
  from double_ofI [OF 1 2 3 4 5 6] show ?thesis by (simp only: v)
qed

lemma round_half_even_tie:
  assumes "q = of_int m + 1 / 2"
  shows "round_half_even q = (if even m then m else m + 1)"
proof -
  have "of_int m \<le> q" "q < of_int (m + 1)" using assms by simp_all
  then have f: "\<lfloor>q\<rfloor> = m" by (simp only: floor_unique)
  have d: "q - of_int m = 1 / 2" using assms by simp
  show ?thesis unfolding round_half_even_def Let_def f d by simp
qed

lemma double_of_minus: "double_of (- q) = neg (double_of q)"
proof (cases "q = 0")
  case True
  then show ?thesis by (simp add: double_of_def neg_def)
next
  case False
  then consider "0 < q" | "q < 0" by linarith
  then show ?thesis
  proof cases
    case 1
    then have "\<not> 0 < - q" "- q \<noteq> 0" by simp_all
    with 1 show ?thesis by (simp add: double_of_def Let_def neg_def)
  next
    case 2
    then have "0 < - q" "\<not> 0 < q" "q \<noteq> 0" by simp_all
    then show ?thesis by (simp add: double_of_def Let_def neg_def)
  qed
qed

lemma double_of_int_exact:
  assumes "\<bar>i\<bar> < 2 ^ 53"
  shows "double_of (of_int i) = Num (of_int i)"
proof (cases "0 \<le> i")
  case True
  then have "nat i < 2 ^ 53" using assms by (simp add: nat_less_iff)
  from double_of_nat_exact [OF this] True show ?thesis by simp
next
  case False
  then have "nat (- i) < 2 ^ 53" using assms by (simp add: nat_less_iff)
  from double_of_nat_exact [OF this] False have "double_of (of_int (- i)) = Num (of_int (- i))" by simp
  then have "neg (double_of (of_int i)) = Num (- of_int i)" by (simp add: double_of_minus)
  then show ?thesis by (cases "double_of (of_int i)") (simp_all add: neg_def)
qed

lemma double_of_not_NaN: "double_of q \<noteq> NaN"
  by (simp add: double_of_def Let_def)

lemma pow2_power_int: "pow2 e = power_int 2 e"
  by (simp add: pow2_def power_int_def power_one_over inverse_eq_divide)

lemma pow2_mono: "d \<le> e \<Longrightarrow> pow2 d \<le> pow2 e"
  unfolding pow2_power_int by (rule power_int_increasing) simp_all

lemma round_half_even_ge_floor: "\<lfloor>q\<rfloor> \<le> round_half_even q"
  by (simp add: round_half_even_def Let_def)

lemma double_of_nat_nonzero:
  assumes "0 < n"
  shows "double_of (of_nat n) \<noteq> Num 0"
proof -
  let ?a = "of_nat n :: rat"
  have a1: "1 \<le> ?a" using assms by simp
  have fl: "nat \<lfloor>?a\<rfloor> = n" by simp
  define e where "e = int (bits n) - 1"
  have i: "ilog2 ?a = e" using a1 by (simp add: ilog2_def e_def)
  have bp: "0 < bits n" using assms by (subst bits.simps) simp
  then have e0: "0 \<le> e" by (simp add: e_def)
  then have m: "max e (- 1022) = e" by simp
  have en: "e = int (bits n - 1)" using bp by (simp add: e_def)
  from bits_bounds [OF assms] have "2 ^ (bits n - 1) \<le> n" by simp
  then have "(of_nat (2 ^ (bits n - 1)) :: rat) \<le> of_nat n" by (simp only: of_nat_le_iff)
  then have lo: "pow2 e \<le> ?a" unfolding en pow2_nat by simp
  have "pow2 (e - 52) \<le> pow2 e" by (rule pow2_mono) simp
  from this lo have "pow2 (e - 52) \<le> ?a" by (rule order_trans)
  then have "1 \<le> ?a / pow2 (e - 52)" by (simp add: pos_le_divide_eq)
  then have "of_int 1 \<le> ?a / pow2 (e - 52)" by simp
  then have "1 \<le> \<lfloor>?a / pow2 (e - 52)\<rfloor>" by (simp only: le_floor_iff)
  with round_half_even_ge_floor [of "?a / pow2 (e - 52)"]
  have r: "0 < round_half_even (?a / pow2 (e - 52))" by linarith
  then have p: "0 < (of_int (round_half_even (?a / pow2 (e - 52))) :: rat) * pow2 (e - 52)"
    by (simp add: zero_less_mult_iff)
  show ?thesis
  proof (cases "pow2 1024 \<le> of_int (round_half_even (?a / pow2 (e - 52))) * pow2 (e - 52)")
    case True
    with assms show ?thesis unfolding double_of_def Let_def by (simp add: i m)
  next
    case False
    have "pow2 (e - 52) \<noteq> 0" by (metis pow2_pos less_irrefl)
    with False assms r show ?thesis unfolding double_of_def Let_def by (simp add: i m)
  qed
qed

lemma JSON_number_nonzero:
  assumes "i \<noteq> 0"
  shows "\<not> falsy (JSON_number i)"
proof -
  have nz: "double_of (of_int i) \<noteq> Num 0"
  proof (cases "0 < i")
    case True
    then have "0 < nat i" by simp
    from double_of_nat_nonzero [OF this] True show ?thesis by simp
  next
    case False
    with assms have "0 < nat (- i)" by simp
    from double_of_nat_nonzero [OF this] False assms
    have "double_of (of_int (- i)) \<noteq> Num 0" by simp
    then have "neg (double_of (of_int i)) \<noteq> Num 0" by (simp add: double_of_minus)
    then show ?thesis by (auto simp: neg_def)
  qed
  then show ?thesis by (simp add: falsy_def JSON_number_def double_of_not_NaN)
qed

lemma js_add_exact:
  assumes "a + b < 2 ^ 53"
  shows "js_add (Num (of_nat a)) (Num (of_nat b)) = Num (of_nat (a + b))"
  using double_of_nat_exact [OF assms] by (simp add: js_add_def)

lemma js_mul_exact:
  assumes "a * b < 2 ^ 53"
  shows "js_mul (Num (of_nat a)) (Num (of_nat b)) = Num (of_nat (a * b))"
  using double_of_nat_exact [OF assms] by (simp add: js_mul_def)

lemma double_of_42: "double_of 42 = Num 42"
  using double_of_nat_exact [of 42] by simp

lemma double_of_three_halves: "double_of (3 / 2) = Num (3 / 2)"
proof -
  have r: "round_half_even ((3 / 2) / pow2 (0 - 52)) = 3 * 2 ^ 51"
    by (rule round_half_even_near) (simp add: pow2_def)
  have "double_of (3 / 2) = Num (of_int (3 * 2 ^ 51) * pow2 (0 - 52))"
    using r by (intro double_ofI) (simp_all add: pow2_def)
  then show ?thesis by (simp add: pow2_def)
qed

lemma double_of_rounds_down: "double_of (4200000000000000001 / 100000000000000000) = Num 42"
proof -
  have r: "round_half_even ((4200000000000000001 / 100000000000000000) / pow2 (5 - 52)) = 42 * 2 ^ 47"
    by (rule round_half_even_near) (simp add: pow2_def)
  have "double_of (4200000000000000001 / 100000000000000000) = Num (of_int (42 * 2 ^ 47) * pow2 (5 - 52))"
    using r by (intro double_ofI) (simp_all add: pow2_def)
  then show ?thesis by (simp add: pow2_def)
qed

lemma double_of_tie: "double_of 9007199254740993 = Num 9007199254740992"
proof -
  have r: "round_half_even (9007199254740993 / pow2 (53 - 52)) = 4503599627370496"
    using round_half_even_tie [of "9007199254740993 / pow2 (53 - 52)" 4503599627370496]
    by (simp add: pow2_def)
  have "double_of 9007199254740993 = Num (of_int 4503599627370496 * pow2 (53 - 52))"
    using r by (intro double_ofI) (simp_all add: pow2_def)
  then show ?thesis by (simp add: pow2_def)
qed

section \<open>Facts about digits and numbers\<close>

lemma digit_char_props: "d < 10 \<Longrightarrow> is_digit (digit_char d) \<and> digit_val (digit_char d) = d"
  by (simp add: is_digit_def digit_char_def digit_val_def)

lemma show_nat_digits: "list_all is_digit (show_nat n)"
proof (induction n rule: show_nat.induct)
  case (1 n)
  show ?case
  proof (cases "n < 10")
    case True
    then show ?thesis by (subst show_nat.simps) (simp add: digit_char_props)
  next
    case False
    with 1 show ?thesis by (subst show_nat.simps) (simp add: digit_char_props)
  qed
qed

lemma show_nat_nonempty: "show_nat n \<noteq> []"
  by (subst show_nat.simps) simp

lemma digits_val_snoc: "digits_val (s @ [c]) = 10 * digits_val s + digit_val c"
  by (simp add: digits_val_def)

lemma digits_val_show_nat: "digits_val (show_nat n) = n"
proof (induction n rule: show_nat.induct)
  case (1 n)
  show ?case
  proof (cases "n < 10")
    case True
    then show ?thesis by (subst show_nat.simps) (simp add: digits_val_def digit_char_props)
  next
    case False
    with 1 show ?thesis
      by (subst show_nat.simps) (simp add: digits_val_snoc digit_char_props)
  qed
qed

lemma digit_not_ws: "is_digit c \<Longrightarrow> \<not> is_ws c"
  by (auto simp: is_digit_def is_ws_def)

lemma trim_id: "s \<noteq> [] \<Longrightarrow> \<not> is_ws (hd s) \<Longrightarrow> \<not> is_ws (last s) \<Longrightarrow> trim s = s"
proof -
  assume a: "s \<noteq> []" "\<not> is_ws (hd s)" "\<not> is_ws (last s)"
  then have 1: "dropWhile is_ws s = s" by (cases s) auto
  from a have "rev s \<noteq> []" "\<not> is_ws (hd (rev s))" by (auto simp: hd_rev)
  then have 2: "dropWhile is_ws (rev s) = rev s" by (cases "rev s") auto
  show ?thesis by (simp add: trim_def 1 2)
qed

lemma StrUnsigned_digits:
  assumes "ds \<noteq> []" "list_all is_digit ds"
  shows "StrUnsignedDecimalLiteral ds = Num (of_nat (digits_val ds))"
proof -
  from assms have ne: "ds \<noteq> ''Infinity''" by (auto simp: is_digit_def)
  from assms have tw: "takeWhile is_digit ds = ds" "dropWhile is_digit ds = []"
    by (auto simp: list_all_iff)
  show ?thesis using assms ne
    by (simp add: StrUnsignedDecimalLiteral_def tw scale10_def)
qed

lemma take2_digits:
  assumes "list_all is_digit ds" "\<not> is_digit c"
  shows "take 2 ds \<noteq> [d, c]"
proof
  assume "take 2 ds = [d, c]"
  then have "c \<in> set (take 2 ds)" by simp
  then have "c \<in> set ds" by (rule in_set_takeD)
  with assms show False by (simp add: list_all_iff)
qed

lemma StrNumericLiteral_digits:
  assumes "ds \<noteq> []" "list_all is_digit ds"
  shows "StrNumericLiteral ds = Num (of_nat (digits_val ds))"
proof -
  have nd: "\<not> is_digit (CHR ''x'')" "\<not> is_digit (CHR ''X'')" "\<not> is_digit (CHR ''o'')"
    "\<not> is_digit (CHR ''O'')" "\<not> is_digit (CHR ''b'')" "\<not> is_digit (CHR ''B'')"
    by (simp_all add: is_digit_def)
  have pre: "take 2 ds \<noteq> ''0x''" "take 2 ds \<noteq> ''0X''" "take 2 ds \<noteq> ''0o''"
    "take 2 ds \<noteq> ''0O''" "take 2 ds \<noteq> ''0b''" "take 2 ds \<noteq> ''0B''"
    using take2_digits [OF assms(2)] nd by blast+
  obtain c r where ds: "ds = c # r" using assms(1) by (cases ds) auto
  with assms(2) have "is_digit c" by simp
  then have sg: "c \<noteq> CHR ''+''" "c \<noteq> CHR ''-''" by (auto simp: is_digit_def)
  have "StrNumericLiteral ds =
      (case ds of
         c # r \<Rightarrow> if c = CHR ''+'' then StrUnsignedDecimalLiteral r
                  else if c = CHR ''-'' then neg (StrUnsignedDecimalLiteral r)
                  else StrUnsignedDecimalLiteral ds
       | [] \<Rightarrow> NaN)"
    using pre by (simp add: StrNumericLiteral_def)
  also have "\<dots> = StrUnsignedDecimalLiteral ds"
    using sg by (simp add: ds)
  finally have "StrNumericLiteral ds = StrUnsignedDecimalLiteral ds" .
  then show ?thesis by (simp add: StrUnsigned_digits [OF assms])
qed

lemma StrNumericLiteral_minus_digits:
  assumes "ds \<noteq> []" "list_all is_digit ds"
  shows "StrNumericLiteral (CHR ''-'' # ds) = Num (- of_nat (digits_val ds))"
  by (simp add: StrNumericLiteral_def StrUnsigned_digits [OF assms] neg_def)

lemma Number_digits:
  assumes "ds \<noteq> []" "list_all is_digit ds"
  shows "Number ds = double_of (of_nat (digits_val ds))"
proof -
  from assms have "is_digit (hd ds)" "is_digit (last ds)" by (auto simp: list_all_iff)
  then have "trim ds = ds" using assms(1) by (intro trim_id) (auto dest: digit_not_ws)
  then show ?thesis
    using assms(1) by (simp add: Number_def StrNumericLiteral_digits [OF assms] round_MV_def)
qed

lemma Number_show_nat: "Number (show_nat n) = double_of (of_nat n)"
  using Number_digits [OF show_nat_nonempty show_nat_digits, of n] by (simp add: digits_val_show_nat)

lemma Number_show_int: "Number (show_int i) = JSON_number i"
proof (cases "i < 0")
  case False
  then show ?thesis by (simp add: show_int_def Number_show_nat JSON_number_def)
next
  case True
  let ?s = "show_nat (nat (- i))"
  have ne: "?s \<noteq> []" by (rule show_nat_nonempty)
  have ad: "list_all is_digit ?s" by (rule show_nat_digits)
  from ne ad have "is_digit (last ?s)" by (auto simp: list_all_iff)
  then have "\<not> is_ws (last (CHR ''-'' # ?s))" using ne by (auto dest: digit_not_ws)
  moreover have "\<not> is_ws (hd (CHR ''-'' # ?s))" by (simp add: is_ws_def)
  ultimately have "trim (CHR ''-'' # ?s) = CHR ''-'' # ?s" by (intro trim_id) auto
  then show ?thesis
    using True
    by (simp add: show_int_def Number_def StrNumericLiteral_minus_digits [OF ne ad]
        digits_val_show_nat round_MV_def JSON_number_def)
qed

lemma parseInt10_show_nat: "parseInt10 (show_nat n) = double_of (of_nat n)"
  by (simp add: parseInt10_def digits_val_show_nat)

lemma SignedInteger_value:
  assumes "SignedInteger s = Some k"
  shows "StrNumericLiteral s = Num (of_int k)"
proof -
  let ?ds = "case s of c # r \<Rightarrow> if c = CHR ''+'' \<or> c = CHR ''-'' then r else s | [] \<Rightarrow> s"
  from assms have ne: "?ds \<noteq> []" and ad: "list_all is_digit ?ds"
    and k: "k = (if take 1 s = ''-'' then - int (digits_val ?ds) else int (digits_val ?ds))"
    by (auto simp: SignedInteger_def Let_def split: if_splits)
  from ne obtain c r where s: "s = c # r" by (cases s) auto
  show ?thesis
  proof (cases "c = CHR ''+'' \<or> c = CHR ''-''")
    case False
    with s have ds: "?ds = s" by simp
    from False s have "take 1 s \<noteq> ''-''" by simp
    with k ds have kv: "k = int (digits_val s)" by simp
    from ne ad ds have "StrNumericLiteral s = Num (of_nat (digits_val s))"
      by (simp add: StrNumericLiteral_digits)
    then show ?thesis by (simp add: kv)
  next
    case True
    with s have ds: "?ds = r" by simp
    with ne ad have r: "r \<noteq> []" "list_all is_digit r" by simp_all
    from True show ?thesis
    proof
      assume c: "c = CHR ''-''"
      with s k ds have kv: "k = - int (digits_val r)" by simp
      show ?thesis using StrNumericLiteral_minus_digits [OF r] s c by (simp add: kv)
    next
      assume c: "c = CHR ''+''"
      with s k ds have kv: "k = int (digits_val r)" by simp
      have "StrNumericLiteral (CHR ''+'' # r) = Num (of_nat (digits_val r))"
        by (simp add: StrNumericLiteral_def StrUnsigned_digits [OF r])
      with c s show ?thesis by (simp add: kv)
    qed
  qed
qed

lemma Number_of_integer_token:
  assumes "SignedInteger (trim tok) = Some k"
  shows "Number tok = JSON_number k"
proof -
  from assms have "trim tok \<noteq> []" by (auto simp: SignedInteger_def)
  with SignedInteger_value [OF assms] show ?thesis
    by (simp add: Number_def round_MV_def JSON_number_def)
qed

lemma JSON_number_not_NaN: "\<not> isNaN (JSON_number k)"
  by (simp add: isNaN_def JSON_number_def double_of_not_NaN)

lemma lower_upper_char: "lower_char (upper_char c) = lower_char c"
  by (auto simp: lower_char_def upper_char_def)

lemma toLowerCase_toUpperCase: "toLowerCase (toUpperCase s) = toLowerCase s"
  by (simp add: toLowerCase_def toUpperCase_def lower_upper_char)

lemmas char_eval = char_of_def bit_Suc_0_iff

lemmas Number_eval = Number_def trim_def is_ws_def StrNumericLiteral_def
  StrUnsignedDecimalLiteral_def is_digit_def digits_val_def digit_val_def scale10_def
  round_MV_def Let_def

lemma Number_42: "Number ''42'' = Num 42"
  by (simp add: Number_eval double_of_42)

lemma Number_abc: "Number ''abc'' = NaN"
  by (simp add: Number_eval)

lemma Number_fraction: "Number ''1.5'' = Num (3 / 2)"
  by (simp add: Number_eval double_of_three_halves)

lemma Number_rounds: "Number ''42.00000000000000001'' = Num 42"
  by (simp add: Number_eval double_of_rounds_down)

lemma Number_tie: "Number ''9007199254740993'' = Num 9007199254740992"
  by (simp add: Number_eval double_of_tie)

lemma JSON_number_safe: "\<bar>i\<bar> < 2 ^ 53 \<Longrightarrow> JSON_number i = Num (of_int i)"
  by (simp add: JSON_number_def double_of_int_exact)

lemma JSON_number_42: "JSON_number 42 = Num 42"
  using JSON_number_safe [of 42] by simp

section \<open>Facts about the index\<close>

lemma build_index_entries: "build_index vs = foldl index_app empty_index (entries vs)"
proof -
  have a: "\<And>idx. foldl (\<lambda>idx vendor. foldl index_app idx (applications vendor)) idx vs
      = foldl index_app idx (concat (map applications vs))"
    by (induction vs) auto
  have b: "\<And>idx. foldl index_app idx as = foldl index_app idx (filter (\<lambda>a. versions a \<noteq> []) as)" for as
    by (induction as) (auto simp: index_app_def Let_def split: list.splits)
  show ?thesis unfolding build_index_def entries_def a by (rule b)
qed

lemma name_map_later:
  "\<forall>b \<in> set ys. toLowerCase (app_name b) \<noteq> k \<Longrightarrow>
   appNameMap (foldl index_app idx ys) k = appNameMap idx k"
  by (induction ys arbitrary: idx) (auto simp: index_app_def Let_def split: list.splits)

lemma id_map_later:
  "\<forall>b \<in> set ys. JSON_number (app_id b) \<noteq> i \<Longrightarrow>
   appArchiveMap (foldl index_app idx ys) i = appArchiveMap idx i"
  by (induction ys arbitrary: idx) (auto simp: index_app_def Let_def split: list.splits)

lemma index_app_here:
  "versions a \<noteq> [] \<Longrightarrow>
   appNameMap (index_app idx a) (toLowerCase (app_name a)) = Some (JSON_number (app_id a)) \<and>
   appArchiveMap (index_app idx a) (JSON_number (app_id a)) =
     Some \<lparr>url = archive_url (hd (versions a)), name = app_name a\<rparr>"
  by (auto simp: index_app_def Let_def split: list.splits)

lemma entries_versions: "a \<in> set (entries vs) \<Longrightarrow> versions a \<noteq> []"
  by (simp add: entries_def)

lemma index_last_wins:
  assumes "entries vs = xs @ a # ys"
    and "\<forall>b \<in> set ys. toLowerCase (app_name b) \<noteq> toLowerCase (app_name a)"
  shows "appNameMap (build_index vs) (toLowerCase (app_name a)) = Some (JSON_number (app_id a))"
proof -
  have "a \<in> set (entries vs)" using assms(1) by simp
  then have v: "versions a \<noteq> []" by (rule entries_versions)
  show ?thesis
    by (simp add: build_index_entries assms(1) name_map_later [OF assms(2)] index_app_here [OF v])
qed

lemma index_id_last:
  assumes "entries vs = xs @ a # ys"
    and "\<forall>b \<in> set ys. JSON_number (app_id b) \<noteq> JSON_number (app_id a)"
  shows "appArchiveMap (build_index vs) (JSON_number (app_id a)) =
     Some \<lparr>url = archive_url (hd (versions a)), name = app_name a\<rparr>"
proof -
  have "a \<in> set (entries vs)" using assms(1) by simp
  then have v: "versions a \<noteq> []" by (rule entries_versions)
  show ?thesis
    by (simp add: build_index_entries assms(1) id_map_later [OF assms(2)] index_app_here [OF v])
qed

lemma index_inv_app: "index_inv idx \<Longrightarrow> index_inv (index_app idx a)"
  by (auto simp: index_inv_def index_app_def Let_def split: list.splits)

lemma index_inv_foldl: "index_inv idx \<Longrightarrow> index_inv (foldl index_app idx as)"
  by (induction as arbitrary: idx) (auto intro: index_inv_app)

lemma index_inv_build: "index_inv (build_index vs)"
  unfolding build_index_entries by (rule index_inv_foldl) (simp add: index_inv_def empty_index_def)

lemma keys_foldl:
  "appArchiveMap (foldl index_app idx as) key \<noteq> None \<Longrightarrow>
   appArchiveMap idx key \<noteq> None \<or> (\<exists>b \<in> set as. versions b \<noteq> [] \<and> key = JSON_number (app_id b))"
proof (induction as arbitrary: idx)
  case Nil
  then show ?case by simp
next
  case (Cons a as)
  from Cons.prems have "appArchiveMap (foldl index_app (index_app idx a) as) key \<noteq> None"
    by simp
  from Cons.IH [OF this]
  show ?case by (auto simp: index_app_def Let_def split: list.splits if_splits)
qed

lemma keys_build:
  assumes "appArchiveMap (build_index vs) key \<noteq> None"
  shows "\<exists>b \<in> set (entries vs). key = JSON_number (app_id b)"
  using keys_foldl [OF assms [unfolded build_index_entries]] by (auto simp: empty_index_def)

lemma resolve_by_id:
  "appArchiveMap idx (JSON_number i) = Some e \<Longrightarrow>
   resolve idx False (show_int i) = Resolved (with_id e (JSON_number i))"
  by (simp add: resolve_def Number_show_int JSON_number_not_NaN)

lemma resolve_by_name:
  "appNameMap idx (toLowerCase v) = Some i \<Longrightarrow> \<not> falsy i \<Longrightarrow> appArchiveMap idx i = Some e \<Longrightarrow>
   resolve idx True v = Resolved (with_id e i)"
  by (simp add: resolve_def)

lemmas index_eval = build_index_def index_app_def Let_def empty_index_def JSON_number_safe

lemma demo_index_42:
  "appArchiveMap (build_index demo_catalog) (Num 42) = Some \<lparr>url = ''http://x/a.zip'', name = ''Foo''\<rparr>"
  by (simp add: demo_catalog_def index_eval)

section \<open>The resolver\<close>

text \<open>
  Against C7 as it is written: the token \<^verbatim>\<open>1.5\<close> does not parse as an integer, the name flag
  is off, and the outcome is the message of an id that was not found, not the one of an
  ambiguous token. \<open>Number\<close> accepts every numeric literal, and line 221 asks for nothing
  more than a value that is not NaN.
\<close>

theorem fractional_token_counterexample:
  "\<not> parses_as_integer ''1.5'' \<and>
   resolve (build_index demo_catalog) False ''1.5'' = IdNotFound (Num (3 / 2)) \<and>
   resolve (build_index demo_catalog) False ''1.5'' \<noteq> AmbiguousToken ''1.5''"
proof -
  have k: "appArchiveMap (build_index demo_catalog) (Num (3 / 2)) = None"
    by (simp add: demo_catalog_def index_eval)
  have p: "\<not> parses_as_integer ''1.5''"
    by (simp add: parses_as_integer_def SignedInteger_def trim_def is_ws_def is_digit_def)
  show ?thesis by (simp add: p resolve_def Number_fraction k isNaN_def)
qed

text \<open>
  C7, amended. The resolver follows the decision table in order. With the name flag, the
  lower-cased token is looked up in the name map, and a miss gives \<open>NameNotFound\<close>.
  Without it, a token for which \<open>Number\<close> is not NaN is looked up in the id map by that
  Number, the double nearest to what the token spells, and a miss gives \<open>IdNotFound\<close>. The
  outcome is \<open>AmbiguousToken\<close> exactly when the flag is off and \<open>Number\<close> of the token is
  NaN. A token that parses as an integer is never NaN: it reaches the id map, with the
  Number that \<open>JSON.parse\<close> gives an id of the document spelled with the same integer.
\<close>

theorem resolver_decision_table:
  "resolve idx nameFlag tok =
     (if nameFlag then
        (case appNameMap idx (toLowerCase tok) of
           None \<Rightarrow> NameNotFound tok
         | Some i \<Rightarrow>
             if falsy i then NameNotFound tok
             else (case appArchiveMap idx i of
                     Some app \<Rightarrow> Resolved (with_id app i) | None \<Rightarrow> Dropped))
      else if isNaN (Number tok) then AmbiguousToken tok
      else (case appArchiveMap idx (Number tok) of
              None \<Rightarrow> IdNotFound (Number tok)
            | Some app \<Rightarrow> Resolved (with_id app (Number tok))))
   \<and> ((resolve idx nameFlag tok = AmbiguousToken tok) = (\<not> nameFlag \<and> isNaN (Number tok)))
   \<and> (parses_as_integer tok \<longrightarrow> \<not> isNaN (Number tok))
   \<and> (SignedInteger (trim tok) = Some k \<longrightarrow> Number tok = JSON_number k)"
proof (intro conjI impI)
  show t: "resolve idx nameFlag tok =
     (if nameFlag then
        (case appNameMap idx (toLowerCase tok) of
           None \<Rightarrow> NameNotFound tok
         | Some i \<Rightarrow>
             if falsy i then NameNotFound tok
             else (case appArchiveMap idx i of
                     Some app \<Rightarrow> Resolved (with_id app i) | None \<Rightarrow> Dropped))
      else if isNaN (Number tok) then AmbiguousToken tok
      else (case appArchiveMap idx (Number tok) of
              None \<Rightarrow> IdNotFound (Number tok)
            | Some app \<Rightarrow> Resolved (with_id app (Number tok))))"
    by (simp add: resolve_def Let_def)
  show "(resolve idx nameFlag tok = AmbiguousToken tok) = (\<not> nameFlag \<and> isNaN (Number tok))"
    unfolding t by (auto split: option.splits)
next
  assume "parses_as_integer tok"
  then obtain j where "SignedInteger (trim tok) = Some j" by (auto simp: parses_as_integer_def)
  then have "Number tok = JSON_number j" by (rule Number_of_integer_token)
  then show "\<not> isNaN (Number tok)" by (simp add: JSON_number_not_NaN)
next
  assume "SignedInteger (trim tok) = Some k"
  then show "Number tok = JSON_number k" by (rule Number_of_integer_token)
qed

theorem resolver_decision_table_witness:
  "parses_as_integer ''42'' \<and> SignedInteger (trim ''42'') = Some 42 \<and>
   \<not> isNaN (Number ''42'') \<and> Number ''42'' = JSON_number 42 \<and>
   resolve (build_index demo_catalog) False ''42'' = Resolved Foo \<and>
   resolve (build_index demo_catalog) False ''42.00000000000000001'' = Resolved Foo \<and>
   resolve (build_index demo_catalog) False ''abc'' = AmbiguousToken ''abc'' \<and>
   resolve (build_index demo_catalog) True ''abc'' = NameNotFound ''abc''"
proof -
  have s: "SignedInteger (trim ''42'') = Some 42"
    by (simp add: SignedInteger_def trim_def is_ws_def is_digit_def digits_val_def digit_val_def)
  then have p: "parses_as_integer ''42''" by (simp add: parses_as_integer_def)
  have n: "appNameMap (build_index demo_catalog) (toLowerCase ''abc'') = None"
    by (simp add: demo_catalog_def index_eval toLowerCase_def lower_char_def char_eval)
  from resolver_decision_table [of "build_index demo_catalog" False "''42''" 42] p s
  have 1: "\<not> isNaN (Number ''42'')" and j42: "Number ''42'' = JSON_number 42"
    and 2: "resolve (build_index demo_catalog) False ''42'' = Resolved Foo"
    by (simp_all add: Number_42 JSON_number_42 isNaN_def demo_index_42 with_id_def Foo_def)
  from resolver_decision_table [of "build_index demo_catalog" False "''42.00000000000000001''"]
  have r42: "resolve (build_index demo_catalog) False ''42.00000000000000001'' = Resolved Foo"
    by (simp add: Number_rounds isNaN_def demo_index_42 with_id_def Foo_def)
  from resolver_decision_table [of "build_index demo_catalog" False "''abc''"]
  have 3: "resolve (build_index demo_catalog) False ''abc'' = AmbiguousToken ''abc''"
    by (simp add: Number_abc isNaN_def)
  from resolver_decision_table [of "build_index demo_catalog" True "''abc''"]
  have 4: "resolve (build_index demo_catalog) True ''abc'' = NameNotFound ''abc''"
    by (simp add: n)
  from p s 1 j42 2 r42 3 4 show ?thesis by simp
qed

text \<open>
  Against C8 as it is written: two entries of one index whose names differ in case only.
  The entry with id 1 is in the index, and resolving its own name gives the entry with
  id 2, the later of the two.
\<close>

theorem shadowed_name_counterexample:
  "appArchiveMap (build_index shadow_catalog) (Num 1) = Some \<lparr>url = ''http://x/a.zip'', name = ''Foo''\<rparr> \<and>
   resolve (build_index shadow_catalog) True ''Foo'' =
     Resolved \<lparr>url = ''http://x/b.zip'', name = ''foo'', id' = Num 2\<rparr> \<and>
   resolve (build_index shadow_catalog) True ''Foo'' \<noteq>
     Resolved \<lparr>url = ''http://x/a.zip'', name = ''Foo'', id' = Num 1\<rparr>"
proof -
  have j: "JSON_number 1 = Num 1" "JSON_number 2 = Num 2"
    using JSON_number_safe [of 1] JSON_number_safe [of 2] by simp_all
  show ?thesis
    by (simp add: shadow_catalog_def build_index_def index_app_def Let_def empty_index_def j
        resolve_def with_id_def isNaN_def falsy_def toLowerCase_def lower_char_def char_eval)
qed

text \<open>
  C8, amended. For every entry of a built index, resolving the decimal string of its id
  with the name flag off gives that entry: the key of the entry is the Number that
  \<open>JSON.parse\<close> made of the id in the document, and the decimal string of that id reads
  as the same Number. Every key of the id map is such a Number, which is the id itself
  when the id is below \<open>2^53\<close> in size. Resolving a case variant of the name of an
  application with the name flag on gives the entry of that application when it is the last
  one in document order with that lower-case name, no later application has an id that
  reads as the same Number, and its id is not 0; of several applications with one
  lower-case name only the last is reached by name. The upper-cased name is such a
  variant, and every id the name map gives is a key of the id map.
\<close>

theorem index_round_trip:
  "(appArchiveMap (build_index vendors) (JSON_number i) = Some e \<longrightarrow>
      resolve (build_index vendors) False (show_int i) = Resolved (with_id e (JSON_number i)))
   \<and> (entries vendors = xs @ a # ys \<and>
       (\<forall>b \<in> set ys. toLowerCase (app_name b) \<noteq> toLowerCase (app_name a)) \<and>
       (\<forall>b \<in> set ys. JSON_number (app_id b) \<noteq> JSON_number (app_id a)) \<and>
       app_id a \<noteq> 0 \<and> toLowerCase v = toLowerCase (app_name a) \<longrightarrow>
      appArchiveMap (build_index vendors) (JSON_number (app_id a)) =
        Some \<lparr>url = archive_url (hd (versions a)), name = app_name a\<rparr> \<and>
      appNameMap (build_index vendors) (toLowerCase (app_name a)) = Some (JSON_number (app_id a)) \<and>
      resolve (build_index vendors) True v =
        Resolved \<lparr>url = archive_url (hd (versions a)), name = app_name a,
                  id' = JSON_number (app_id a)\<rparr>)
   \<and> toLowerCase (toUpperCase (app_name a)) = toLowerCase (app_name a)
   \<and> (appNameMap (build_index vendors) k = Some j \<longrightarrow> appArchiveMap (build_index vendors) j \<noteq> None)
   \<and> (appArchiveMap (build_index vendors) key \<noteq> None \<longrightarrow>
        (\<exists>b. b \<in> set (entries vendors) \<and> key = JSON_number (app_id b)))
   \<and> (\<bar>i\<bar> < 2 ^ 53 \<longrightarrow> JSON_number i = Num (of_int i))"
proof (intro conjI impI)
  assume "appArchiveMap (build_index vendors) (JSON_number i) = Some e"
  then show "resolve (build_index vendors) False (show_int i) = Resolved (with_id e (JSON_number i))"
    by (rule resolve_by_id)
next
  assume h: "entries vendors = xs @ a # ys \<and>
       (\<forall>b \<in> set ys. toLowerCase (app_name b) \<noteq> toLowerCase (app_name a)) \<and>
       (\<forall>b \<in> set ys. JSON_number (app_id b) \<noteq> JSON_number (app_id a)) \<and>
       app_id a \<noteq> 0 \<and> toLowerCase v = toLowerCase (app_name a)"
  then have n: "appNameMap (build_index vendors) (toLowerCase v) = Some (JSON_number (app_id a))"
    using index_last_wins [of vendors xs a ys] by simp
  from h have m: "appArchiveMap (build_index vendors) (JSON_number (app_id a)) =
        Some \<lparr>url = archive_url (hd (versions a)), name = app_name a\<rparr>"
    using index_id_last [of vendors xs a ys] by simp
  show "appArchiveMap (build_index vendors) (JSON_number (app_id a)) =
        Some \<lparr>url = archive_url (hd (versions a)), name = app_name a\<rparr>" by (rule m)
  show "appNameMap (build_index vendors) (toLowerCase (app_name a)) = Some (JSON_number (app_id a))"
    using n h by simp
  from h have "app_id a \<noteq> 0" by simp
  then have "\<not> falsy (JSON_number (app_id a))" by (rule JSON_number_nonzero)
  from resolve_by_name [OF n this m]
  show "resolve (build_index vendors) True v =
        Resolved \<lparr>url = archive_url (hd (versions a)), name = app_name a,
                  id' = JSON_number (app_id a)\<rparr>"
    by (simp add: with_id_def)
next
  show "toLowerCase (toUpperCase (app_name a)) = toLowerCase (app_name a)"
    by (rule toLowerCase_toUpperCase)
next
  assume "appNameMap (build_index vendors) k = Some j"
  with index_inv_build [of vendors] show "appArchiveMap (build_index vendors) j \<noteq> None"
    by (auto simp: index_inv_def)
next
  assume "appArchiveMap (build_index vendors) key \<noteq> None"
  from keys_build [OF this] show "\<exists>b. b \<in> set (entries vendors) \<and> key = JSON_number (app_id b)"
    by blast
next
  assume "\<bar>i\<bar> < 2 ^ 53"
  then show "JSON_number i = Num (of_int i)" by (rule JSON_number_safe)
qed

theorem index_round_trip_witness:
  "resolve (build_index demo_catalog) False (show_int 42) = Resolved Foo \<and>
   resolve (build_index demo_catalog) True ''FOO'' = Resolved Foo \<and>
   toLowerCase (toUpperCase ''Foo'') = toLowerCase ''Foo'' \<and>
   appNameMap (build_index demo_catalog) ''foo'' = Some (Num 42) \<and>
   appArchiveMap (build_index demo_catalog) (Num 42) \<noteq> None \<and>
   (\<exists>b. b \<in> set (entries demo_catalog) \<and> Num 42 = JSON_number (app_id b)) \<and>
   JSON_number 42 = Num 42"
proof -
  let ?a = "\<lparr>app_id = 42, app_name = ''Foo'', versions = [\<lparr>archive_url = ''http://x/a.zip''\<rparr>]\<rparr>"
  let ?ys = "[\<lparr>app_id = 7, app_name = ''Bar'', versions = [\<lparr>archive_url = ''http://x/b.zip''\<rparr>]\<rparr>,
          \<lparr>app_id = 8, app_name = ''Baz'',
           versions = [\<lparr>archive_url = ''http://x/c.zip''\<rparr>, \<lparr>archive_url = ''http://x/old.zip''\<rparr>]\<rparr>]"
  have e: "entries demo_catalog = [] @ ?a # ?ys"
    by (simp add: entries_def demo_catalog_def)
  have l: "toLowerCase ''FOO'' = toLowerCase (app_name ?a)"
    "\<forall>b \<in> set ?ys. toLowerCase (app_name b) \<noteq> toLowerCase (app_name ?a)"
    by (simp_all add: toLowerCase_def lower_char_def char_eval)
  have f: "toLowerCase (app_name ?a) = ''foo''"
    by (simp add: toLowerCase_def lower_char_def char_eval)
  have i: "\<forall>b \<in> set ?ys. JSON_number (app_id b) \<noteq> JSON_number (app_id ?a)" "app_id ?a \<noteq> 0"
    by (simp_all add: JSON_number_safe)
  have s: "\<bar>42 :: int\<bar> < 2 ^ 53" by simp
  note t = index_round_trip [of demo_catalog 42 "\<lparr>url = ''http://x/a.zip'', name = ''Foo''\<rparr>"
      "[]" ?a ?ys "''FOO''" "''foo''" "Num 42" "Num 42"]
  from t e l i s demo_index_42
  have 1: "resolve (build_index demo_catalog) False (show_int 42) = Resolved Foo"
    and 2: "resolve (build_index demo_catalog) True ''FOO'' = Resolved Foo"
    and 3: "toLowerCase (toUpperCase ''Foo'') = toLowerCase ''Foo''"
    and 4: "appNameMap (build_index demo_catalog) (toLowerCase (app_name ?a)) = Some (Num 42)"
    and 6: "JSON_number 42 = Num 42"
    by (simp_all add: with_id_def Foo_def JSON_number_42)
  from 4 have k: "appNameMap (build_index demo_catalog) ''foo'' = Some (Num 42)" by (simp only: f)
  from t k have 5: "appArchiveMap (build_index demo_catalog) (Num 42) \<noteq> None" by blast
  from t 5 have 7: "\<exists>b. b \<in> set (entries demo_catalog) \<and> Num 42 = JSON_number (app_id b)" by blast
  from 1 2 3 k 5 6 7 show ?thesis by simp
qed

section \<open>The expiry of a fetched catalog\<close>

lemma match_max_age_here:
  assumes "is_digit d"
  shows "match_max_age (directive @ d # r) = Some (takeWhile is_digit (d # r))"
proof -
  obtain c cs where e: "directive @ d # r = c # cs" by (cases "directive @ d # r") auto
  have p: "prefix directive (c # cs)" unfolding e [symmetric] by simp
  have dr: "drop (length directive) (c # cs) = d # r" unfolding e [symmetric] by simp
  show ?thesis unfolding e using p assms by (simp add: dr Let_def del: drop_Suc_Cons)
qed

lemma match_max_age_digits:
  assumes "ds \<noteq> []" "list_all is_digit ds"
  shows "match_max_age (directive @ ds) = Some ds"
proof -
  from assms obtain d r where ds: "ds = d # r" and d: "is_digit d" by (cases ds) auto
  from assms have "takeWhile is_digit ds = ds" by (auto simp: list_all_iff)
  with match_max_age_here [OF d, of r] ds show ?thesis by simp
qed

lemma match_max_age_None_iff:
  "match_max_age s = None \<longleftrightarrow> (\<forall>p d r. s = p @ directive @ d # r \<longrightarrow> \<not> is_digit d)"
proof (induction s)
  case Nil
  then show ?case by simp
next
  case (Cons c cs)
  let ?digits = "takeWhile is_digit (drop (length directive) (c # cs))"
  show ?case
  proof (cases "prefix directive (c # cs) \<and> ?digits \<noteq> []")
    case True
    then obtain r where r: "c # cs = directive @ r" by (auto simp: prefix_def)
    then have "drop (length directive) (c # cs) = r" by simp
    with True have "takeWhile is_digit r \<noteq> []" by simp
    then obtain d r' where "r = d # r'" "is_digit d" by (cases r) (auto split: if_splits)
    with r have "c # cs = [] @ directive @ d # r'" by simp
    with \<open>is_digit d\<close> have "\<not> (\<forall>p d r. c # cs = p @ directive @ d # r \<longrightarrow> \<not> is_digit d)" by blast
    moreover from True have "match_max_age (c # cs) \<noteq> None" by (simp add: Let_def del: drop_Suc_Cons)
    ultimately show ?thesis by blast
  next
    case False
    then have eq: "match_max_age (c # cs) = match_max_age cs" by (auto simp: Let_def simp del: drop_Suc_Cons)
    have "(\<forall>p d r. c # cs = p @ directive @ d # r \<longrightarrow> \<not> is_digit d) \<longleftrightarrow>
          (\<forall>p d r. cs = p @ directive @ d # r \<longrightarrow> \<not> is_digit d)"
    proof
      assume a: "\<forall>p d r. c # cs = p @ directive @ d # r \<longrightarrow> \<not> is_digit d"
      show "\<forall>p d r. cs = p @ directive @ d # r \<longrightarrow> \<not> is_digit d"
      proof (intro allI impI)
        fix p d r assume "cs = p @ directive @ d # r"
        then have "c # cs = (c # p) @ directive @ d # r" by simp
        with a show "\<not> is_digit d" by blast
      qed
    next
      assume a: "\<forall>p d r. cs = p @ directive @ d # r \<longrightarrow> \<not> is_digit d"
      show "\<forall>p d r. c # cs = p @ directive @ d # r \<longrightarrow> \<not> is_digit d"
      proof (intro allI impI)
        fix p d r assume h: "c # cs = p @ directive @ d # r"
        show "\<not> is_digit d"
        proof (cases p)
          case Nil
          with h have e: "c # cs = directive @ d # r" by simp
          have pre: "prefix directive (c # cs)" unfolding e by simp
          have "drop (length directive) (c # cs) = d # r" unfolding e by simp
          with False pre have "takeWhile is_digit (d # r) = []" by simp
          then show ?thesis by (auto split: if_splits)
        next
          case (Cons x p')
          with h have "cs = p' @ directive @ d # r" by simp
          with a show ?thesis by blast
        qed
      qed
    qed
    with eq Cons.IH show ?thesis by simp
  qed
qed

lemma match_max_age_leftmost:
  assumes "h = p @ directive @ ds @ r" "ds \<noteq> []" "list_all is_digit ds"
    and "r = [] \<or> \<not> is_digit (hd r)"
    and "\<forall>p' d r'. h = p' @ directive @ d # r' \<and> is_digit d \<longrightarrow> length p \<le> length p'"
  shows "match_max_age h = Some ds"
  using assms(1,5)
proof (induction p arbitrary: h)
  case Nil
  from assms(2,3) obtain d ds' where ds: "ds = d # ds'" and d: "is_digit d" by (cases ds) auto
  have "takeWhile is_digit r = []" using assms(4) by (cases r) auto
  then have tw: "takeWhile is_digit (ds @ r) = ds" using assms(3) by (simp add: list_all_iff)
  have "h = directive @ d # (ds' @ r)" using Nil(1) ds by simp
  then have "match_max_age h = Some (takeWhile is_digit (d # (ds' @ r)))"
    using match_max_age_here [OF d] by simp
  also have "d # (ds' @ r) = ds @ r" using ds by simp
  finally show ?case by (simp only: tw)
next
  case (Cons c p)
  define cs where "cs = p @ directive @ ds @ r"
  have h: "h = c # cs" using Cons.prems(1) by (simp add: cs_def)
  let ?digits = "takeWhile is_digit (drop (length directive) (c # cs))"
  have no: "\<not> (prefix directive (c # cs) \<and> ?digits \<noteq> [])"
  proof
    assume a: "prefix directive (c # cs) \<and> ?digits \<noteq> []"
    then obtain t where t: "c # cs = directive @ t" by (auto simp: prefix_def)
    then have "drop (length directive) (c # cs) = t" by simp
    with a have "takeWhile is_digit t \<noteq> []" by simp
    then obtain d t' where "t = d # t'" "is_digit d" by (cases t) (auto split: if_splits)
    with t h have "h = [] @ directive @ d # t' \<and> is_digit d" by simp
    with Cons.prems(2) have "length (c # p) \<le> length ([] :: string)" by blast
    then show False by simp
  qed
  then have eq: "match_max_age h = match_max_age cs"
    unfolding h by (auto simp: Let_def simp del: drop_Suc_Cons)
  have "\<forall>p' d r'. cs = p' @ directive @ d # r' \<and> is_digit d \<longrightarrow> length p \<le> length p'"
  proof (intro allI impI)
    fix p' d r' assume "cs = p' @ directive @ d # r' \<and> is_digit d"
    then have "h = (c # p') @ directive @ d # r' \<and> is_digit d" using h by simp
    with Cons.prems(2) have "length (c # p) \<le> length (c # p')" by blast
    then show "length p \<le> length p'" by simp
  qed
  from Cons.IH [OF cs_def this] eq show ?case by simp
qed

lemma maxAge_leftmost:
  assumes "h = p @ directive @ ds @ r" "ds \<noteq> []" "list_all is_digit ds"
    and "r = [] \<or> \<not> is_digit (hd r)"
    and "\<forall>p' d r'. h = p' @ directive @ d # r' \<and> is_digit d \<longrightarrow> length p \<le> length p'"
  shows "maxAge (Some h) = parseInt10 ds"
proof -
  have "h \<noteq> []" using assms(1,2) by simp
  with match_max_age_leftmost [OF assms] assms(2) show ?thesis by (simp add: maxAge_def)
qed

lemma parseInt10_exact: "digits_val ds < 2 ^ 53 \<Longrightarrow> parseInt10 ds = Num (of_nat (digits_val ds))"
  by (simp add: parseInt10_def double_of_nat_exact)

lemma maxAge_show_nat: "maxAge (Some (directive @ show_nat n)) = double_of (of_nat n)"
  using match_max_age_digits [OF show_nat_nonempty show_nat_digits, of n]
  by (simp add: maxAge_def parseInt10_show_nat show_nat_nonempty)

lemma max7200: "maxAge (Some ''max-age=7200'') = Num 7200"
proof -
  have "maxAge (Some ''max-age=7200'') = parseInt10 ''7200''"
    by (simp add: maxAge_def directive_def is_digit_def)
  also have "\<dots> = Num (of_nat (digits_val ''7200''))"
    by (rule parseInt10_exact) (simp add: digits_val_def digit_val_def)
  finally show ?thesis by (simp add: digits_val_def digit_val_def)
qed

lemma no_directive_in_no_cache:
  "\<forall>p d r. ''no-cache'' = p @ ''max-age='' @ d # r \<longrightarrow> \<not> is_digit d"
proof (intro allI impI)
  fix p d r assume "''no-cache'' = p @ ''max-age='' @ d # r"
  then have "length ''no-cache'' = length (p @ ''max-age='' @ d # r)" by (rule arg_cong)
  then show "\<not> is_digit d" by simp
qed

lemma Math_min_Num: "Math_min (Num a) (Num b) = Num (min a b)"
  by (simp add: Math_min_def isNaN_def js_less_def min_def)

lemma expiry_sum_exact:
  assumes "now + m * 1000 < 2 ^ 53"
  shows "js_add (Date_now now) (js_mul (Num (of_nat m)) (Num 1000)) = Num (of_nat (now + m * 1000))"
proof -
  have "m * 1000 < 2 ^ 53" using assms by simp
  from js_mul_exact [OF this] have "js_mul (Num (of_nat m)) (Num 1000) = Num (of_nat (m * 1000))"
    by simp
  with js_add_exact [OF assms] show ?thesis by (simp add: Date_now_def)
qed

lemma double_of_huge_product: "double_of 9007199254740992000 = Num 9007199254740992000"
proof -
  have r: "round_half_even (9007199254740992000 / pow2 (62 - 52)) = 8796093022208000"
    by (rule round_half_even_near) (simp add: pow2_def)
  have "double_of 9007199254740992000 = Num (of_int 8796093022208000 * pow2 (62 - 52))"
    using r by (intro double_ofI) (simp_all add: pow2_def)
  then show ?thesis by (simp add: pow2_def)
qed

lemma double_of_huge_sum: "double_of 9007199254741992000 = Num 9007199254741992448"
proof -
  have r: "round_half_even (9007199254741992000 / pow2 (62 - 52)) = 8796093022208977"
    by (rule round_half_even_near) (simp add: pow2_def)
  have "double_of 9007199254741992000 = Num (of_int 8796093022208977 * pow2 (62 - 52))"
    using r by (intro double_ofI) (simp_all add: pow2_def)
  then show ?thesis by (simp add: pow2_def)
qed

lemma maxAge_huge: "maxAge (Some ''max-age=9007199254740993'') = Num 9007199254740992"
  by (simp add: maxAge_def directive_def is_digit_def parseInt10_def digits_val_def digit_val_def
      double_of_tie)

text \<open>
  Against C5 as it is written: the numbers of the script are doubles. For the header
  \<^verbatim>\<open>max-age=9007199254740993\<close> \<open>parseInt\<close> gives 9007199254740992, and the expiry of a
  fetch at time 1000000 is the double nearest to the sum, not the fetch time plus
  \<open>max-age\<close> seconds.
\<close>

theorem huge_max_age_counterexample:
  "maxAge (Some ''max-age=9007199254740993'') = Num 9007199254740992 \<and>
   expiryTime (Date_getTime demo_env) 1000000 (Some ''max-age=9007199254740993'') None =
     Num 9007199254741992448 \<and>
   expiryTime (Date_getTime demo_env) 1000000 (Some ''max-age=9007199254740993'') None \<noteq>
     Num (1000000 + 9007199254740993 * 1000)"
  by (simp add: maxAge_huge expiryTime_def Let_def Date_now_def js_add_def js_mul_def
      double_of_huge_product double_of_huge_sum)

text \<open>
  C5, amended. The expiry written to the cache is, in the double arithmetic of the script,
  the earlier of the time of the fetch plus \<open>max-age\<close> seconds and the time of the
  \<open>Expires\<close> header, when that header is there and parses; it is the time of the fetch
  plus \<open>max-age\<close> seconds otherwise. Whenever the time of the fetch plus \<open>max-age\<close>
  seconds stays below \<open>2^53\<close> milliseconds the sums are exact. \<open>max-age\<close> is 14400 when
  there is no \<open>cache-control\<close> header, an empty one, or none with a \<^verbatim>\<open>max-age=\<close> that a
  digit follows; otherwise it is the double nearest to the number after the leftmost such
  \<^verbatim>\<open>max-age=\<close>, wherever it stands in the header, which is that number when it is below
  \<open>2^53\<close>. With \<^verbatim>\<open>max-age=7200\<close> and an \<open>Expires\<close> one hour after the fetch the expiry is the
  fetch plus one hour; with \<^verbatim>\<open>max-age=7200\<close> alone it is the fetch plus 7200 seconds. Times
  are in milliseconds, and a time of the clock is at most 8640000000000000.
\<close>

theorem expiry_is_earlier_bound:
  "(expires' = Some s \<and> s \<noteq> [] \<and> getTime s = Some expiresDate \<longrightarrow>
      expiryTime getTime now cacheControl expires' =
        Math_min (js_add (Date_now now) (js_mul (maxAge cacheControl) (Num 1000)))
          (Num (of_int expiresDate)))
   \<and> (expires' = None \<or> expires' = Some [] \<or> (expires' = Some s \<and> getTime s = None) \<longrightarrow>
      expiryTime getTime now cacheControl expires' =
        js_add (Date_now now) (js_mul (maxAge cacheControl) (Num 1000)))
   \<and> (maxAge cacheControl = Num (of_nat m) \<and> now + m * 1000 < 2 ^ 53 \<longrightarrow>
        (expires' = Some s \<and> s \<noteq> [] \<and> getTime s = Some expiresDate \<longrightarrow>
           expiryTime getTime now cacheControl expires' =
             Num (of_int (min (int now + int m * 1000) expiresDate)))
        \<and> (expires' = None \<or> expires' = Some [] \<or> (expires' = Some s \<and> getTime s = None) \<longrightarrow>
           expiryTime getTime now cacheControl expires' = Num (of_nat (now + m * 1000))))
   \<and> maxAge None = Num 14400
   \<and> maxAge (Some []) = Num 14400
   \<and> ((\<forall>p d r. h = p @ ''max-age='' @ d # r \<longrightarrow> \<not> is_digit d) \<longrightarrow> maxAge (Some h) = Num 14400)
   \<and> (h = p @ ''max-age='' @ ds @ r \<and> ds \<noteq> [] \<and> list_all is_digit ds \<and>
       (r = [] \<or> \<not> is_digit (hd r)) \<and>
       (\<forall>p' d r'. h = p' @ ''max-age='' @ d # r' \<and> is_digit d \<longrightarrow> length p \<le> length p') \<longrightarrow>
        maxAge (Some h) = parseInt10 ds \<and>
        (digits_val ds < 2 ^ 53 \<longrightarrow> maxAge (Some h) = Num (of_nat (digits_val ds))))
   \<and> (now \<le> 8640000000000000 \<and> getTime s = Some (int now + 3600000) \<and> s \<noteq> [] \<longrightarrow>
      expiryTime getTime now (Some ''max-age=7200'') (Some s) = Num (of_nat now + 3600000))
   \<and> (now \<le> 8640000000000000 \<longrightarrow>
      expiryTime getTime now (Some ''max-age=7200'') None = Num (of_nat now + 7200000))"
proof (intro conjI impI)
  assume "expires' = Some s \<and> s \<noteq> [] \<and> getTime s = Some expiresDate"
  then show "expiryTime getTime now cacheControl expires' =
        Math_min (js_add (Date_now now) (js_mul (maxAge cacheControl) (Num 1000)))
          (Num (of_int expiresDate))"
    by (simp add: expiryTime_def Let_def)
next
  assume "expires' = None \<or> expires' = Some [] \<or> (expires' = Some s \<and> getTime s = None)"
  then show "expiryTime getTime now cacheControl expires' =
        js_add (Date_now now) (js_mul (maxAge cacheControl) (Num 1000))"
    by (auto simp: expiryTime_def Let_def)
next
  assume a: "maxAge cacheControl = Num (of_nat m) \<and> now + m * 1000 < 2 ^ 53"
    and b: "expires' = Some s \<and> s \<noteq> [] \<and> getTime s = Some expiresDate"
  from a have "js_add (Date_now now) (js_mul (maxAge cacheControl) (Num 1000)) =
      Num (of_nat (now + m * 1000))" by (simp add: expiry_sum_exact)
  also have "(of_nat (now + m * 1000) :: rat) = of_int (int now + int m * 1000)" by simp
  finally show "expiryTime getTime now cacheControl expires' =
      Num (of_int (min (int now + int m * 1000) expiresDate))"
    using b by (simp add: expiryTime_def Let_def Math_min_Num min_def)
next
  assume a: "maxAge cacheControl = Num (of_nat m) \<and> now + m * 1000 < 2 ^ 53"
    and b: "expires' = None \<or> expires' = Some [] \<or> (expires' = Some s \<and> getTime s = None)"
  from a have "js_add (Date_now now) (js_mul (maxAge cacheControl) (Num 1000)) =
      Num (of_nat (now + m * 1000))" by (simp add: expiry_sum_exact)
  with b show "expiryTime getTime now cacheControl expires' = Num (of_nat (now + m * 1000))"
    by (auto simp: expiryTime_def Let_def)
next
  show "maxAge None = Num 14400" by (simp add: maxAge_def)
next
  show "maxAge (Some []) = Num 14400" by (simp add: maxAge_def)
next
  assume "\<forall>p d r. h = p @ ''max-age='' @ d # r \<longrightarrow> \<not> is_digit d"
  then have "\<forall>p d r. h = p @ directive @ d # r \<longrightarrow> \<not> is_digit d" by (simp add: directive_def)
  then have "match_max_age h = None" by (simp only: match_max_age_None_iff)
  then show "maxAge (Some h) = Num 14400" by (simp add: maxAge_def)
next
  assume a: "h = p @ ''max-age='' @ ds @ r \<and> ds \<noteq> [] \<and> list_all is_digit ds \<and>
       (r = [] \<or> \<not> is_digit (hd r)) \<and>
       (\<forall>p' d r'. h = p' @ ''max-age='' @ d # r' \<and> is_digit d \<longrightarrow> length p \<le> length p')"
  then have 1: "h = p @ directive @ ds @ r" and 2: "ds \<noteq> []" and 3: "list_all is_digit ds"
    and 4: "r = [] \<or> \<not> is_digit (hd r)"
    and 5: "\<forall>p' d r'. h = p' @ directive @ d # r' \<and> is_digit d \<longrightarrow> length p \<le> length p'"
    by (simp_all add: directive_def)
  show m: "maxAge (Some h) = parseInt10 ds" using 1 2 3 4 5 by (rule maxAge_leftmost)
  assume "digits_val ds < 2 ^ 53"
  then show "maxAge (Some h) = Num (of_nat (digits_val ds))" by (simp add: m parseInt10_exact)
next
  assume a: "now \<le> 8640000000000000 \<and> getTime s = Some (int now + 3600000) \<and> s \<noteq> []"
  then have "now + 7200 * 1000 < 2 ^ 53" by simp
  from expiry_sum_exact [OF this]
  have "js_add (Date_now now) (js_mul (Num 7200) (Num 1000)) = Num (of_nat now + 7200000)" by simp
  with a show "expiryTime getTime now (Some ''max-age=7200'') (Some s) = Num (of_nat now + 3600000)"
    by (simp add: expiryTime_def Let_def max7200 Math_min_Num)
next
  assume "now \<le> 8640000000000000"
  then have "now + 7200 * 1000 < 2 ^ 53" by simp
  from expiry_sum_exact [OF this]
  have "js_add (Date_now now) (js_mul (Num 7200) (Num 1000)) = Num (of_nat now + 7200000)" by simp
  then show "expiryTime getTime now (Some ''max-age=7200'') None = Num (of_nat now + 7200000)"
    by (simp add: expiryTime_def Let_def max7200)
qed

lemma public_leftmost:
  "\<forall>p' d r'. ''public, max-age=7200'' = p' @ ''max-age='' @ d # r' \<and> is_digit d \<longrightarrow>
     length ''public, '' \<le> length p'"
proof (intro allI impI)
  fix p' :: string and d r'
  assume a: "''public, max-age=7200'' = p' @ ''max-age='' @ d # r' \<and> is_digit d"
  then have e: "''public, max-age=7200'' = p' @ ''max-age='' @ d # r'" by (rule conjunct1)
  have dr: "drop (length p') ''public, max-age=7200'' = ''max-age='' @ d # r'"
    by (subst e) simp
  show "length ''public, '' \<le> length p'"
  proof (rule ccontr)
    assume "\<not> length ''public, '' \<le> length p'"
    then have "length p' < 8" by simp
    then consider "length p' = 0" | "length p' = 1" | "length p' = 2" | "length p' = 3"
      | "length p' = 4" | "length p' = 5" | "length p' = 6" | "length p' = 7" by linarith
    then show False using dr by cases simp_all
  qed
qed

theorem expiry_is_earlier_bound_witness:
  "expiryTime (Date_getTime demo_env) 1000000 (Some ''max-age=7200'')
      (Some ''Thu, 01 Jan 1970 01:16:40 GMT'') = Num 4600000
   \<and> expiryTime (Date_getTime demo_env) 1000000 (Some ''max-age=7200'') None = Num 8200000
   \<and> expiryTime (Date_getTime demo_env) 1000000 (Some ''public, max-age=7200'')
        (Some ''Thu, 01 Jan 1970 01:16:40 GMT'') = Num 4600000
   \<and> expiryTime (Date_getTime demo_env) 1000000 (Some ''public, max-age=7200'') (Some ''tomorrow'')
        = Num 8200000
   \<and> maxAge (Some ''no-cache'') = Num 14400
   \<and> maxAge (Some ''public, max-age=7200'') = Num 7200"
proof -
  have g: "Date_getTime demo_env ''Thu, 01 Jan 1970 01:16:40 GMT'' = Some 4600000"
    "Date_getTime demo_env ''tomorrow'' = None"
    by (simp_all add: demo_env_def)
  have d: "list_all is_digit ''7200''" "digits_val ''7200'' = 7200"
    by (simp_all add: is_digit_def digits_val_def digit_val_def)
  note t = expiry_is_earlier_bound [of "Some ''Thu, 01 Jan 1970 01:16:40 GMT''"
      "''Thu, 01 Jan 1970 01:16:40 GMT''" "Date_getTime demo_env" 4600000 1000000
      "Some ''public, max-age=7200''" 7200 "''public, max-age=7200''" "''public, ''" "''7200''" "[]"]
  note u = expiry_is_earlier_bound [of "Some ''tomorrow''" "''tomorrow''" "Date_getTime demo_env"
      0 1000000 "Some ''public, max-age=7200''" 7200 "''no-cache''" "[]" "[]" "[]"]
  have e: "''public, max-age=7200'' = ''public, '' @ ''max-age='' @ ''7200'' @ []" by simp
  have n: "''7200'' \<noteq> []" "[] = [] \<or> \<not> is_digit (hd [])" by simp_all
  have b: "digits_val ''7200'' < 2 ^ 53" by (simp add: d)
  from t e n d(1) b public_leftmost
  have "maxAge (Some ''public, max-age=7200'') = Num (of_nat (digits_val ''7200''))" by blast
  then have m: "maxAge (Some ''public, max-age=7200'') = Num 7200" by (simp add: d)
  have 1: "expiryTime (Date_getTime demo_env) 1000000 (Some ''max-age=7200'')
      (Some ''Thu, 01 Jan 1970 01:16:40 GMT'') = Num 4600000" using t g by simp
  have 2: "expiryTime (Date_getTime demo_env) 1000000 (Some ''max-age=7200'') None = Num 8200000"
    using t by simp
  have h1: "maxAge (Some ''public, max-age=7200'') = Num (of_nat 7200) \<and>
      1000000 + 7200 * 1000 < (2::nat) ^ 53" using m by simp
  have h2: "Some ''Thu, 01 Jan 1970 01:16:40 GMT'' = Some ''Thu, 01 Jan 1970 01:16:40 GMT'' \<and>
      ''Thu, 01 Jan 1970 01:16:40 GMT'' \<noteq> [] \<and>
      Date_getTime demo_env ''Thu, 01 Jan 1970 01:16:40 GMT'' = Some 4600000" using g by simp
  from t h1 h2
  have "expiryTime (Date_getTime demo_env) 1000000 (Some ''public, max-age=7200'')
      (Some ''Thu, 01 Jan 1970 01:16:40 GMT'') = Num (of_int (min (int 1000000 + int 7200 * 1000) 4600000))"
    by blast
  then have 3: "expiryTime (Date_getTime demo_env) 1000000 (Some ''public, max-age=7200'')
      (Some ''Thu, 01 Jan 1970 01:16:40 GMT'') = Num 4600000" by simp
  have h3: "Some ''tomorrow'' = None \<or> Some ''tomorrow'' = Some [] \<or>
      (Some ''tomorrow'' = Some ''tomorrow'' \<and> Date_getTime demo_env ''tomorrow'' = None)"
    using g by simp
  from u h1 h3
  have "expiryTime (Date_getTime demo_env) 1000000 (Some ''public, max-age=7200'') (Some ''tomorrow'')
      = Num (of_nat (1000000 + 7200 * 1000))" by blast
  then have 4: "expiryTime (Date_getTime demo_env) 1000000 (Some ''public, max-age=7200'') (Some ''tomorrow'')
      = Num 8200000" by simp
  have 5: "maxAge (Some ''no-cache'') = Num 14400" using u no_directive_in_no_cache by blast
  from 1 2 3 4 5 m show ?thesis by simp
qed

section \<open>Counting the effects\<close>

lemma fetches_emit: "fetches (emit e w) = fetches w + (if e = Fetch then 1 else 0)"
  by (simp add: fetches_def emit_def)

lemma fetches_cacheFile_update [simp]: "fetches (w\<lparr>cacheFile := c\<rparr>) = fetches w"
  by (simp add: fetches_def)

lemma downloads_emit: "downloads (emit e w) = downloads w + (if is_download e then 1 else 0)"
  by (simp add: downloads_def emit_def)

section \<open>One application\<close>

lemma trim_Nil_iff: "trim s = [] \<longleftrightarrow> (\<forall>c \<in> set s. is_ws c)"
proof
  assume "\<forall>c \<in> set s. is_ws c"
  then have h: "dropWhile is_ws s = []" by (simp add: dropWhile_eq_Nil_conv)
  show "trim s = []" by (simp only: trim_def h rev.simps dropWhile.simps)
next
  assume t: "trim s = []"
  define d where "d = dropWhile is_ws s"
  from t have "dropWhile is_ws (rev d) = []" by (simp add: trim_def d_def)
  then have all: "\<forall>x \<in> set d. is_ws x" by (simp add: dropWhile_eq_Nil_conv)
  have "d = []"
  proof (cases d)
    case Nil
    then show ?thesis .
  next
    case (Cons x xs)
    then have "\<not> is_ws x" using hd_dropWhile [of is_ws s] by (auto simp: d_def)
    with all Cons show ?thesis by simp
  qed
  then show "\<forall>c \<in> set s. is_ws c" by (simp add: d_def dropWhile_eq_Nil_conv)
qed

lemma stdout_Nil [simp]: "stdout [] = []"
  by (simp add: stdout_def)

lemma set_stdout: "set (stdout ps) = (\<Union>p \<in> set ps. insert newline (set p))"
  by (induction ps) (auto simp: stdout_def)

lemma slash_not_ws: "\<not> is_ws (CHR ''/'')"
  by (simp add: is_ws_def)

lemma find_paths_slash:
  "CHR ''/'' \<in> set dir \<Longrightarrow> p \<in> set (find_maxdepth1 env dir pat ents) \<Longrightarrow> CHR ''/'' \<in> set p"
  by (auto simp: find_maxdepth1_def)

lemma unquote_plain: "backslash \<notin> set t \<Longrightarrow> unquote t = t"
  by (induction t rule: unquote.induct) auto

lemma sh_dquoted_plain:
  assumes "\<forall>c \<in> set t. \<not> sh_special c \<and> c \<noteq> backslash"
  shows "sh_dquoted t = Some t"
proof -
  have "\<not> list_ex sh_special t" using assms by (auto simp: list_ex_iff)
  moreover have "backslash \<notin> set t" using assms by auto
  ultimately show ?thesis by (simp add: sh_dquoted_def unquote_plain)
qed

lemma glob_items_plain:
  assumes "\<forall>c \<in> set n. c \<noteq> backslash \<and> c \<noteq> CHR 0x5B"
  shows "glob_items (n @ r) = map_option ((@) (map item_of n)) (glob_items r)"
  using assms
proof (induction n)
  case Nil
  show ?case by (simp add: option.map_ident)
next
  case (Cons c n)
  then have ih: "glob_items (n @ r) = map_option ((@) (map item_of n)) (glob_items r)" by simp
  from Cons.prems have c: "c \<noteq> backslash" "c \<noteq> CHR 0x5B" by simp_all
  have ic: "item_of c = (if c = CHR ''*'' then AnyString else if c = CHR ''?'' then AnyChar else Lit c)"
    by (simp add: item_of_def)
  show ?case using c by (simp add: ih ic option.map_comp comp_def)
qed

lemma glob_items_app: "glob_items ''*.app'' = Some [AnyString, Lit (CHR ''.''), Lit (CHR ''a''), Lit (CHR ''p''), Lit (CHR ''p'')]"
  by (simp add: backslash_def)

lemma matches_suffix_app:
  "matches [AnyString, Lit (CHR ''.''), Lit (CHR ''a''), Lit (CHR ''p''), Lit (CHR ''p'')] s
   \<longleftrightarrow> suffix ''.app'' s"
proof (induction s)
  case Nil
  show ?case by simp
next
  case (Cons x xs)
  have "matches [Lit (CHR ''.''), Lit (CHR ''a''), Lit (CHR ''p''), Lit (CHR ''p'')] (x # xs)
      \<longleftrightarrow> x # xs = ''.app''"
    by (auto split: list.splits)
  then show ?case using Cons.IH by (auto simp: suffix_Cons)
qed

lemma matches_self:
  "matches q s \<Longrightarrow> matches (map item_of n @ q) (n @ s)"
proof (induction n)
  case Nil
  then show ?case by simp
next
  case (Cons c n)
  then have "matches (map item_of n @ q) (n @ s)" by simp
  moreover have "item_of c = (if c = CHR ''*'' then AnyString else if c = CHR ''?'' then AnyChar else Lit c)"
    by (simp add: item_of_def)
  ultimately show ?case by simp
qed

lemma name_matches_app: "name_matches env ''*.app'' e \<longleftrightarrow> suffix ''.app'' e"
  by (simp only: name_matches_def glob_items_app option.case matches_suffix_app)

lemma name_matches_plain:
  assumes "\<forall>c \<in> set n. c \<noteq> backslash \<and> c \<noteq> CHR 0x5B"
  shows "name_matches env (n @ ''*.app'') (n @ m @ ''.app'')"
proof -
  let ?q = "[AnyString, Lit (CHR ''.''), Lit (CHR ''a''), Lit (CHR ''p''), Lit (CHR ''p'')]"
  have g: "glob_items (n @ ''*.app'') = Some (map item_of n @ ?q)"
    by (simp only: glob_items_plain [OF assms] glob_items_app option.map)
  have "matches ?q (m @ ''.app'')" by (simp only: matches_suffix_app) (simp add: suffix_def)
  then have "matches (map item_of n @ ?q) (n @ m @ ''.app'')" by (rule matches_self)
  then show ?thesis by (simp only: name_matches_def g option.case)
qed

lemma existingApps_plain:
  assumes "plain_name (name app)"
  shows "existingApps env w app =
    trim (stdout (find_maxdepth1 env setappDir (name app @ ''*.app'') (setappDir_entries w)))"
proof -
  have "\<forall>c \<in> set (name app @ ''*.app''). \<not> sh_special c \<and> c \<noteq> backslash"
    using assms by (auto simp: plain_name_def sh_special_def backslash_def)
  then have "sh_dquoted (name app @ ''*.app'') = Some (name app @ ''*.app'')"
    by (rule sh_dquoted_plain)
  then show ?thesis by (simp add: existingApps_def)
qed

lemma stdout_paths_nonempty:
  assumes "ps \<noteq> []" "\<forall>p \<in> set ps. CHR ''/'' \<in> set p"
  shows "trim (stdout ps) \<noteq> []"
proof -
  from assms obtain p where p: "p \<in> set ps" "CHR ''/'' \<in> set p" by (cases ps) auto
  then have "CHR ''/'' \<in> set (stdout ps)" by (auto simp: set_stdout)
  with slash_not_ws have "\<not> (\<forall>c \<in> set (stdout ps). is_ws c)" by blast
  then show ?thesis by (simp add: trim_Nil_iff)
qed

lemma existing_match:
  assumes "plain_name (name app)" "name app @ m @ ''.app'' \<in> set (setappDir_entries w)"
  shows "existingApps env w app \<noteq> []"
proof -
  let ?ps = "find_maxdepth1 env setappDir (name app @ ''*.app'') (setappDir_entries w)"
  have "\<forall>c \<in> set (name app). c \<noteq> backslash \<and> c \<noteq> CHR 0x5B"
    using assms(1) by (simp add: plain_name_def)
  then have "name_matches env (name app @ ''*.app'') (name app @ m @ ''.app'')"
    by (rule name_matches_plain)
  with assms(2) have ne: "?ps \<noteq> []" by (auto simp: find_maxdepth1_def filter_empty_conv)
  have "CHR ''/'' \<in> set setappDir" by (simp add: setappDir_def)
  then have "\<forall>p \<in> set ?ps. CHR ''/'' \<in> set p" by (auto intro: find_paths_slash)
  with ne have "trim (stdout ?ps) \<noteq> []" by (rule stdout_paths_nonempty)
  then show ?thesis unfolding existingApps_plain [OF assms(1)] .
qed

lemma installApp_skips:
  assumes "exits_zero env (FindExisting setappDir (name app))" "existingApps env w app \<noteq> []"
  shows "installApp env pf w app =
    (skipped_result app, emit (Exec (FindExisting setappDir (name app))) w)"
  using assms by (simp add: installApp_def installApp_start_def Let_def)

lemma existingApps_emit [simp]: "existingApps env (emit e w) app = existingApps env w app"
  by (simp add: existingApps_def emit_def split: option.splits)

lemma appFiles_none:
  assumes "find_maxdepth1 env tDir ''*.app'' (unzipped env (url app)) = []"
  shows "appFiles env app tDir = [[]]"
  using assms by (simp add: appFiles_def trim_def)

lemmas demo_defs = demo_env_def demo_world_def Foo_def Bar_def Baz_def Beta_def corrupt_env_def
  Bar_zip_def offline_env_def no_shell_env_def no_mkdir_env_def no_find_env_def
  no_sudo_env_def no_rm_env_def beta_world_def installed_world_def after_Foo_def

lemmas run_defs = installApp_def installApp_start_def installApp_resume_def temp_dir_def
  existingApps_def appFiles_def find_maxdepth1_def stdout_def trim_def setappDir_def emit_def
  existsSync_dest_def show_int_def show_nat.simps digit_char_def newline_def is_ws_def
  skipped_result_def installed_result_def failed_result_def Let_def
  sh_dquoted_def sh_special_def backslash_def close_bracket_def name_matches_def
  Number_toString_def safe_integer_def

lemma Beta_not_found: "existingApps demo_env beta_world Beta = []"
  by (simp add: demo_defs run_defs)

lemma Beta_run:
  "installApp demo_env False beta_world Beta =
     (installed_result Beta,
      beta_world\<lparr>random_calls := 1,
        trace := [Exec (FindExisting ''/Applications/Setapp'' ''App [Beta]''),
                  Exec (Curl ''http://x/d.zip'' ''/tmp/setapp_0000000000000000_5.zip'' True),
                  Exec (MkdirP ''/tmp/setapp_0000000000000000_5''),
                  Exec (Unzip ''/tmp/setapp_0000000000000000_5.zip'' ''/tmp/setapp_0000000000000000_5''),
                  Exec (FindName ''/tmp/setapp_0000000000000000_5'' ''*.app''),
                  Exec (RmRf ''/tmp/setapp_0000000000000000_5'' ''/tmp/setapp_0000000000000000_5.zip'')]\<rparr>)"
  by (simp add: demo_defs run_defs char_eval)

text \<open>
  C9 asks that a target is skipped, and nothing downloaded, whenever its name is the
  beginning of the name of a bundle in the destination. Line 264 looks for such a bundle
  with \<open>find\<close>, and puts the name into the pattern, and the pattern into a command line
  for \<open>sh\<close>, as it is. For a name of plain characters that is the search for a prefix, and
  the claim holds: the target is skipped, twice in a row, and no download is run. A name
  with a bracket is read as a bracket expression: the pattern for \<^verbatim>\<open>App [Beta]\<close> matches
  \<^verbatim>\<open>App B.app\<close> and not \<^verbatim>\<open>App [Beta].app\<close>. With that bundle in place the search prints
  nothing, the archive is downloaded again, and the result is not a skipped one. The second
  check, line 311, compares the path itself and finds the bundle.
\<close>

theorem bracket_name_is_not_skipped:
  "(plain_name (name app) \<and> name app @ m @ ''.app'' \<in> set (setappDir_entries w) \<and>
    exits_zero env (FindExisting setappDir (name app)) \<longrightarrow>
      (case installApp env parallelFlag w app of (r1, w1) \<Rightarrow>
         success r1 \<and> skipped r1 = Some True \<and> downloads w1 = downloads w \<and>
         (case installApp env parallelFlag w1 app of (r2, w2) \<Rightarrow>
            success r2 \<and> skipped r2 = Some True \<and> downloads w2 = downloads w1)))
   \<and> ''App [Beta].app'' \<in> set (setappDir_entries beta_world)
   \<and> prefix (name Beta) ''App [Beta].app''
   \<and> existingApps demo_env beta_world Beta = []
   \<and> fst (installApp demo_env False beta_world Beta) = installed_result Beta
   \<and> skipped (fst (installApp demo_env False beta_world Beta)) = None
   \<and> downloads (snd (installApp demo_env False beta_world Beta)) = downloads beta_world + 1"
proof (intro conjI impI)
  assume a: "plain_name (name app) \<and> name app @ m @ ''.app'' \<in> set (setappDir_entries w) \<and>
    exits_zero env (FindExisting setappDir (name app))"
  then have "plain_name (name app)" "name app @ m @ ''.app'' \<in> set (setappDir_entries w)"
    by simp_all
  then have 1: "existingApps env w app \<noteq> []" by (rule existing_match)
  let ?w1 = "emit (Exec (FindExisting setappDir (name app))) w"
  have 2: "existingApps env ?w1 app \<noteq> []" using 1 by simp
  from a have x: "exits_zero env (FindExisting setappDir (name app))" by simp
  show "(case installApp env parallelFlag w app of (r1, w1) \<Rightarrow>
         success r1 \<and> skipped r1 = Some True \<and> downloads w1 = downloads w \<and>
         (case installApp env parallelFlag w1 app of (r2, w2) \<Rightarrow>
            success r2 \<and> skipped r2 = Some True \<and> downloads w2 = downloads w1))"
    by (simp add: installApp_skips [OF x 1] installApp_skips [OF x 2] skipped_result_def
        downloads_emit is_download_def)
next
  show "''App [Beta].app'' \<in> set (setappDir_entries beta_world)"
    by (simp add: beta_world_def)
  show "prefix (name Beta) ''App [Beta].app''" by (simp add: Beta_def)
  show "existingApps demo_env beta_world Beta = []" by (rule Beta_not_found)
  show "fst (installApp demo_env False beta_world Beta) = installed_result Beta"
    by (simp add: Beta_run)
  show "skipped (fst (installApp demo_env False beta_world Beta)) = None"
    by (simp add: Beta_run installed_result_def)
  show "downloads (snd (installApp demo_env False beta_world Beta)) = downloads beta_world + 1"
    unfolding Beta_run by (simp add: downloads_def is_download_def beta_world_def demo_world_def)
qed

theorem bracket_name_is_not_skipped_witness:
  "plain_name (name Foo) \<and> name Foo @ '' 2'' @ ''.app'' \<in> set (setappDir_entries installed_world) \<and>
   exits_zero demo_env (FindExisting setappDir (name Foo)) \<and>
   (case installApp demo_env False installed_world Foo of (r1, w1) \<Rightarrow>
      success r1 \<and> skipped r1 = Some True \<and> downloads w1 = downloads installed_world \<and>
      (case installApp demo_env False w1 Foo of (r2, w2) \<Rightarrow>
         success r2 \<and> skipped r2 = Some True \<and> downloads w2 = downloads w1))"
proof -
  have 1: "plain_name (name Foo)"
    by (simp add: plain_name_def Foo_def sh_special_def backslash_def)
  have 2: "name Foo @ '' 2'' @ ''.app'' \<in> set (setappDir_entries installed_world)"
    by (simp add: installed_world_def Foo_def)
  have 3: "exits_zero demo_env (FindExisting setappDir (name Foo))" by (simp add: demo_env_def)
  have 4: "case installApp demo_env False installed_world Foo of (r1, w1) \<Rightarrow>
      success r1 \<and> skipped r1 = Some True \<and> downloads w1 = downloads installed_world \<and>
      (case installApp demo_env False w1 Foo of (r2, w2) \<Rightarrow>
         success r2 \<and> skipped r2 = Some True \<and> downloads w2 = downloads w1)"
    by (rule bracket_name_is_not_skipped [of Foo "'' 2''" installed_world demo_env False,
          THEN conjunct1, THEN mp]) (intro conjI 1 2 3)
  from 1 2 3 4 show ?thesis by (intro conjI)
qed

text \<open>
  C2 asks for a failed result when the search of the extraction directory finds no
  bundle. Line 300 tests for it and line 301 would throw, but the test never holds: the
  output of a \<open>find\<close> that prints nothing is the empty string, and \<^verbatim>\<open>"".split("\n")\<close> is a
  list of one empty string, not the empty list. The loop skips the empty string, and the
  result is the one of an installed application: \<open>success\<close> is true and there is no error.
  This holds for every target that is not skipped and whose commands all succeed.
\<close>

theorem missing_bundle_reported_installed:
  assumes "exits_zero env (FindExisting setappDir (name app))"
    and "existingApps env w app = []"
    and "exits_zero env (Curl (url app) (temp_dir env w app @ ''.zip'') (\<not> parallelFlag))"
    and "exits_zero env (MkdirP (temp_dir env w app))"
    and "exits_zero env (Unzip (temp_dir env w app @ ''.zip'') (temp_dir env w app))"
    and "exits_zero env (FindName (temp_dir env w app) ''*.app'')"
    and "exits_zero env (RmRf (temp_dir env w app) (temp_dir env w app @ ''.zip''))"
    and "find_maxdepth1 env (temp_dir env w app) ''*.app'' (unzipped env (url app)) = []"
  shows "appFiles env app (temp_dir env w app) = [[]]
    \<and> fst (installApp env parallelFlag w app) = installed_result app
    \<and> success (fst (installApp env parallelFlag w app))
    \<and> error (fst (installApp env parallelFlag w app)) = None"
  using assms
  by (simp add: installApp_def installApp_start_def installApp_resume_def Let_def
      appFiles_none installed_result_def)

theorem missing_bundle_reported_installed_witness:
  "find_maxdepth1 demo_env (temp_dir demo_env demo_world Bar) ''*.app''
      (unzipped demo_env (url Bar)) = []
   \<and> fst (installApp demo_env False demo_world Bar) = installed_result Bar
   \<and> success (fst (installApp demo_env False demo_world Bar))
   \<and> error (fst (installApp demo_env False demo_world Bar)) = None"
proof -
  have x: "exits_zero demo_env c" for c by (simp add: demo_env_def)
  have e: "existingApps demo_env demo_world Bar = []"
    by (simp add: demo_defs run_defs)
  have f: "find_maxdepth1 demo_env (temp_dir demo_env demo_world Bar) ''*.app''
      (unzipped demo_env (url Bar)) = []"
    by (simp add: demo_defs run_defs char_eval)
  from missing_bundle_reported_installed [OF x e x x x x x f, of False] f
  show ?thesis by blast
qed

section \<open>All applications\<close>

lemma outcome_skipped: "outcome_of app (skipped_result app)"
  by (simp add: outcome_of_def skipped_result_def)

lemma outcome_installed: "outcome_of app (installed_result app)"
  by (simp add: outcome_of_def installed_result_def)

lemma outcome_failed: "outcome_of app (failed_result app e)"
  by (simp add: outcome_of_def failed_result_def)

lemma resume_forms:
  "fst (installApp_resume env w app s) = installed_result app \<or>
   (\<exists>e. fst (installApp_resume env w app s) = failed_result app e)"
  by (auto simp: installApp_resume_def Let_def split: settled.splits prod.splits option.splits)

lemma resume_outcome: "outcome_of app (fst (installApp_resume env w app s))"
  using resume_forms [of env w app s] by (auto simp: outcome_installed outcome_failed)

lemma start_forms:
  "fst (installApp_start env pf w app) = Inl (skipped_result app) \<or>
   fst (installApp_start env pf w app) =
     Inl (failed_result app (ExecFailed (FindExisting setappDir (name app)))) \<or>
   (\<exists>s. fst (installApp_start env pf w app) = Inr s)"
  by (simp add: installApp_start_def Let_def)

lemma installApp_outcome: "outcome_of app (fst (installApp env pf w app))"
proof (cases "installApp_start env pf w app")
  case (Pair p w1)
  then show ?thesis using start_forms [of env pf w app]
    by (auto simp: installApp_def outcome_skipped outcome_failed resume_outcome)
qed

lemma run_sequential_outcomes: "list_all2 outcome_of apps (fst (run_sequential env w apps))"
proof (induction apps arbitrary: w)
  case Nil
  then show ?case by simp
next
  case (Cons a apps)
  obtain r w1 where 1: "installApp env False w a = (r, w1)" by (cases "installApp env False w a")
  obtain rs w2 where 2: "run_sequential env w1 apps = (rs, w2)" by (cases "run_sequential env w1 apps")
  have "outcome_of a r" using installApp_outcome [of a env False w] 1 by simp
  moreover have "list_all2 outcome_of apps rs" using Cons.IH [of w1] 2 by simp
  ultimately show ?case by (simp add: 1 2)
qed

lemma start_all_shape:
  "map fst (fst (start_all env w apps)) = apps \<and> list_all started_ok (fst (start_all env w apps))"
proof (induction apps arbitrary: w)
  case Nil
  then show ?case by simp
next
  case (Cons a apps)
  obtain p w1 where 1: "installApp_start env True w a = (p, w1)" by (cases "installApp_start env True w a")
  obtain ps w2 where 2: "start_all env w1 apps = (ps, w2)" by (cases "start_all env w1 apps")
  have "started_ok (a, p)" using start_forms [of env True w a] 1 by (auto simp: started_ok_def)
  with Cons.IH [of w1] 2 show ?case by (simp add: 1)
qed

lemma settle_all_outcomes:
  "list_all started_ok ps \<Longrightarrow> list_all2 outcome_of (map fst ps) (fst (settle_all env w ps))"
proof (induction ps arbitrary: w)
  case Nil
  then show ?case by simp
next
  case (Cons ap ps)
  obtain a p where ap: "ap = (a, p)" by (cases ap)
  obtain r w1 where 1: "(case p of Inl r \<Rightarrow> (r, w) | Inr s \<Rightarrow> installApp_resume env w a s) = (r, w1)"
    by (cases "(case p of Inl r \<Rightarrow> (r, w) | Inr s \<Rightarrow> installApp_resume env w a s)")
  obtain rs w2 where 2: "settle_all env w1 ps = (rs, w2)" by (cases "settle_all env w1 ps")
  have "outcome_of a r"
  proof (cases p)
    case (Inl r')
    with Cons.prems ap 1 show ?thesis by (auto simp: started_ok_def outcome_skipped outcome_failed)
  next
    case (Inr s)
    with 1 have "r = fst (installApp_resume env w a s)" by simp
    then show ?thesis by (simp add: resume_outcome)
  qed
  moreover have "list_all2 outcome_of (map fst ps) rs" using Cons.IH [of w1] Cons.prems 2 by simp
  ultimately show ?case by (simp add: ap 1 2)
qed

lemma run_parallel_outcomes: "list_all2 outcome_of apps (fst (run_parallel env w apps))"
proof -
  obtain ps w1 where 1: "start_all env w apps = (ps, w1)" by (cases "start_all env w apps")
  with start_all_shape [of env w apps] have "map fst ps = apps" "list_all started_ok ps" by simp_all
  with settle_all_outcomes [of ps env w1] show ?thesis by (simp add: run_parallel_def 1)
qed

lemma results_outcomes: "list_all2 outcome_of apps (fst (results env pf w apps))"
  by (simp add: results_def run_parallel_outcomes run_sequential_outcomes)

lemma outcomes_names: "list_all2 outcome_of apps rs \<Longrightarrow> map result_name rs = map name apps"
  by (induction apps rs rule: list_all2_induct) (auto simp: outcome_of_def)

lemma emit_entries [simp]: "setappDir_entries (emit e w) = setappDir_entries w"
  by (simp add: emit_def)

lemma place_Cons:
  "place env w (f # fs) =
     (if f = [] \<or> existsSync_dest w (last (split (CHR ''/'') f)) then place env w fs
      else if exits_zero env (sudo_mv f)
           then place env ((emit (Exec (sudo_mv f)) w)\<lparr>setappDir_entries :=
                             setappDir_entries w @ [last (split (CHR ''/'') f)]\<rparr>) fs
           else (Some (ExecFailed (sudo_mv f)), emit (Exec (sudo_mv f)) w))"
  by (simp add: Let_def sudo_mv_def)

lemma place_error:
  "fst (place env w fs) = Some e \<Longrightarrow>
   \<exists>f. f \<in> set fs \<and> f \<noteq> [] \<and> e = ExecFailed (sudo_mv f) \<and> \<not> exits_zero env (sudo_mv f)"
proof (induction fs arbitrary: w)
  case Nil
  then show ?case by simp
next
  case (Cons g gs)
  let ?n = "last (split (CHR ''/'') g)"
  let ?v = "(emit (Exec (sudo_mv g)) w)\<lparr>setappDir_entries := setappDir_entries w @ [?n]\<rparr>"
  consider "g = [] \<or> existsSync_dest w ?n"
    | "\<not> (g = [] \<or> existsSync_dest w ?n)" "exits_zero env (sudo_mv g)"
    | "\<not> (g = [] \<or> existsSync_dest w ?n)" "\<not> exits_zero env (sudo_mv g)" by blast
  then show ?case
  proof cases
    case 1
    with Cons.prems have "fst (place env w gs) = Some e" by (simp only: place_Cons if_True)
    from Cons.IH [OF this] show ?thesis by auto
  next
    case 2
    with Cons.prems have "fst (place env ?v gs) = Some e" by (simp only: place_Cons if_True if_False)
    from Cons.IH [OF this] show ?thesis by auto
  next
    case 3
    with Cons.prems have "e = ExecFailed (sudo_mv g)" by (simp only: place_Cons if_False) simp
    with 3 show ?thesis by auto
  qed
qed

lemma place_first_fails:
  assumes "f \<noteq> []" "\<not> existsSync_dest w (last (split (CHR ''/'') f))" "\<not> exits_zero env (sudo_mv f)"
  shows "place env w (f # fs) = (Some (ExecFailed (sudo_mv f)), emit (Exec (sudo_mv f)) w)"
  using assms by (simp only: place_Cons) simp

lemma place_all_succeed:
  "\<forall>f \<in> set fs. exits_zero env (sudo_mv f) \<Longrightarrow> fst (place env w fs) = None"
proof (induction fs arbitrary: w)
  case Nil
  then show ?case by simp
next
  case (Cons g gs)
  then have ok: "exits_zero env (sudo_mv g)" and ih: "\<And>v. fst (place env v gs) = None" by simp_all
  show ?case by (simp only: place_Cons ok ih if_True split: if_splits) simp
qed

lemma place_keeps:
  "existsSync_dest w n \<Longrightarrow> existsSync_dest (snd (place env w fs)) n"
proof (induction fs arbitrary: w)
  case Nil
  then show ?case by simp
next
  case (Cons g gs)
  let ?m = "last (split (CHR ''/'') g)"
  let ?v = "(emit (Exec (sudo_mv g)) w)\<lparr>setappDir_entries := setappDir_entries w @ [?m]\<rparr>"
  have v: "existsSync_dest ?v n" using Cons.prems by (auto simp: existsSync_dest_def)
  have e: "existsSync_dest (emit (Exec (sudo_mv g)) w) n"
    using Cons.prems by (auto simp: existsSync_dest_def)
  consider "g = [] \<or> existsSync_dest w ?m"
    | "\<not> (g = [] \<or> existsSync_dest w ?m)" "exits_zero env (sudo_mv g)"
    | "\<not> (g = [] \<or> existsSync_dest w ?m)" "\<not> exits_zero env (sudo_mv g)" by blast
  then show ?case
  proof cases
    case 1
    then show ?thesis using Cons.IH [OF Cons.prems] by (simp only: place_Cons if_True)
  next
    case 2
    then show ?thesis using Cons.IH [OF v] by (simp only: place_Cons if_True if_False)
  next
    case 3
    then show ?thesis using e by (simp only: place_Cons if_False snd_conv)
  qed
qed

lemma place_placed:
  "fst (place env w fs) = None \<Longrightarrow> f \<in> set fs \<Longrightarrow> f \<noteq> [] \<Longrightarrow>
   existsSync_dest (snd (place env w fs)) (last (split (CHR ''/'') f))"
proof (induction fs arbitrary: w)
  case Nil
  then show ?case by simp
next
  case (Cons g gs)
  let ?n = "last (split (CHR ''/'') g)"
  let ?v = "(emit (Exec (sudo_mv g)) w)\<lparr>setappDir_entries := setappDir_entries w @ [?n]\<rparr>"
  consider "g = [] \<or> existsSync_dest w ?n"
    | "\<not> (g = [] \<or> existsSync_dest w ?n)" "exits_zero env (sudo_mv g)"
    | "\<not> (g = [] \<or> existsSync_dest w ?n)" "\<not> exits_zero env (sudo_mv g)" by blast
  then show ?case
  proof cases
    case 1
    then have pl: "place env w (g # gs) = place env w gs" by (simp only: place_Cons if_True)
    show ?thesis
    proof (cases "f = g")
      case True
      with Cons.prems(3) 1 have "existsSync_dest w ?n" by simp
      then have "existsSync_dest (snd (place env w gs)) ?n" by (rule place_keeps)
      then show ?thesis using True pl by simp
    next
      case False
      with Cons.prems(2) have "f \<in> set gs" by simp
      moreover from Cons.prems(1) pl have "fst (place env w gs) = None" by simp
      ultimately show ?thesis using Cons.IH Cons.prems(3) pl by simp
    qed
  next
    case 2
    then have pl: "place env w (g # gs) = place env ?v gs" by (simp only: place_Cons if_True if_False)
    show ?thesis
    proof (cases "f = g")
      case True
      have "existsSync_dest ?v ?n" by (simp add: existsSync_dest_def)
      then have "existsSync_dest (snd (place env ?v gs)) ?n" by (rule place_keeps)
      then show ?thesis using True pl by simp
    next
      case False
      with Cons.prems(2) have "f \<in> set gs" by simp
      moreover from Cons.prems(1) pl have "fst (place env ?v gs) = None" by simp
      ultimately show ?thesis using Cons.IH Cons.prems(3) pl by simp
    qed
  next
    case 3
    then have "fst (place env w (g # gs)) = Some (ExecFailed (sudo_mv g))"
      by (simp only: place_Cons if_False fst_conv)
    with Cons.prems(1) show ?thesis by simp
  qed
qed

lemma start_entries [simp]:
  "setappDir_entries (snd (installApp_start env pf w app)) = setappDir_entries w"
  by (simp add: installApp_start_def Let_def emit_def)

lemma existsSync_dest_cong:
  "setappDir_entries w = setappDir_entries w' \<Longrightarrow> existsSync_dest w n = existsSync_dest w' n"
  by (simp add: existsSync_dest_def)

lemma place_frame:
  "setappDir_entries w = setappDir_entries w' \<Longrightarrow>
   fst (place env w fs) = fst (place env w' fs) \<and>
   setappDir_entries (snd (place env w fs)) = setappDir_entries (snd (place env w' fs))"
proof (induction fs arbitrary: w w')
  case Nil
  then show ?case by simp
next
  case (Cons f fs)
  let ?n = "last (split (CHR ''/'') f)"
  let ?mv = "SudoMv f (setappDir @ ''/'' @ ?n)"
  have ex: "existsSync_dest w ?n = existsSync_dest w' ?n"
    using Cons.prems by (rule existsSync_dest_cong)
  show ?case
  proof (cases "f = [] \<or> existsSync_dest w ?n")
    case True
    then show ?thesis using Cons.IH [OF Cons.prems] ex by (auto simp: Let_def)
  next
    case False
    show ?thesis
    proof (cases "exits_zero env ?mv")
      case True
      let ?v = "(emit (Exec ?mv) w)\<lparr>setappDir_entries := setappDir_entries (emit (Exec ?mv) w) @ [?n]\<rparr>"
      let ?v' = "(emit (Exec ?mv) w')\<lparr>setappDir_entries := setappDir_entries (emit (Exec ?mv) w') @ [?n]\<rparr>"
      have "setappDir_entries ?v = setappDir_entries ?v'" using Cons.prems by simp
      from Cons.IH [OF this] show ?thesis using False True ex by (simp add: Let_def)
    next
      case F2: False
      then show ?thesis using False ex Cons.prems by (simp add: Let_def)
    qed
  qed
qed

lemma installApp_find_fails:
  assumes "\<not> exits_zero env (FindExisting setappDir (name app))"
  shows "installApp env pf w app =
    (failed_result app (ExecFailed (FindExisting setappDir (name app))),
     emit (Exec (FindExisting setappDir (name app))) w)"
  using assms by (simp add: installApp_def installApp_start_def Let_def)

lemma installApp_result:
  assumes "exits_zero env (FindExisting setappDir (name app))" "existingApps env w app = []"
  shows "fst (installApp env pf w app) =
    (case List.find (\<lambda>c. \<not> exits_zero env c) (commands_before_placing env pf w app) of
       Some c \<Rightarrow> failed_result app (ExecFailed c)
     | None \<Rightarrow>
         (case fst (place env w (appFiles env app (temp_dir env w app))) of
            Some e \<Rightarrow> failed_result app e
          | None \<Rightarrow>
              if exits_zero env (RmRf (temp_dir env w app) (temp_dir env w app @ ''.zip''))
              then installed_result app
              else failed_result app
                     (ExecFailed (RmRf (temp_dir env w app) (temp_dir env w app @ ''.zip'')))))"
proof -
  let ?t = "temp_dir env w app"
  let ?C = "Curl (url app) (?t @ ''.zip'') (\<not> pf)"
  let ?M = "MkdirP ?t"
  let ?U = "Unzip (?t @ ''.zip'') ?t"
  let ?F = "FindName ?t ''*.app''"
  obtain p w2 where st0: "installApp_start env pf w app = (p, w2)"
    by (cases "installApp_start env pf w app")
  have "fst (installApp_start env pf w app) =
      Inr \<lparr>tempDir = ?t, tempFile = ?t @ ''.zip'',
            awaited = (if exits_zero env ?C then Fulfilled else Rejected (ExecFailed ?C))\<rparr>"
    using assms by (simp add: installApp_start_def Let_def)
  with st0 have st: "installApp_start env pf w app =
      (Inr \<lparr>tempDir = ?t, tempFile = ?t @ ''.zip'',
            awaited = (if exits_zero env ?C then Fulfilled else Rejected (ExecFailed ?C))\<rparr>, w2)"
    by simp
  have e2: "setappDir_entries w2 = setappDir_entries w"
    using start_entries [of env pf w app] st0 by simp
  let ?w5 = "emit (Exec ?F) (emit (Exec ?U) (emit (Exec ?M) w2))"
  have cs: "commands_before_placing env pf w app = [?C, ?M, ?U, ?F]"
    by (simp add: commands_before_placing_def Let_def)
  have "setappDir_entries ?w5 = setappDir_entries w" using e2 by simp
  from place_frame [OF this, of env "appFiles env app ?t"]
  have pf: "fst (place env ?w5 (appFiles env app ?t)) = fst (place env w (appFiles env app ?t))"
    by simp
  obtain eo w4 where pl: "place env ?w5 (appFiles env app ?t) = (eo, w4)"
    by (cases "place env ?w5 (appFiles env app ?t)")
  with pf have eo: "fst (place env w (appFiles env app ?t)) = eo" by simp
  have len: "length (appFiles env app ?t) \<noteq> 0"
    by (cases "trim (stdout (find_maxdepth1 env ?t ''*.app'' (unzipped env (url app))))")
       (simp_all add: appFiles_def split: list.splits)
  consider "\<not> exits_zero env ?C"
    | "exits_zero env ?C" "\<not> exits_zero env ?M"
    | "exits_zero env ?C" "exits_zero env ?M" "\<not> exits_zero env ?U"
    | "exits_zero env ?C" "exits_zero env ?M" "exits_zero env ?U" "\<not> exits_zero env ?F"
    | "exits_zero env ?C" "exits_zero env ?M" "exits_zero env ?U" "exits_zero env ?F"
    by blast
  then show ?thesis
  proof cases
    case 1
    then show ?thesis by (simp add: installApp_def st installApp_resume_def cs)
  next
    case 2
    then show ?thesis by (simp add: installApp_def st installApp_resume_def cs Let_def)
  next
    case 3
    then show ?thesis by (simp add: installApp_def st installApp_resume_def cs Let_def)
  next
    case 4
    then show ?thesis by (simp add: installApp_def st installApp_resume_def cs Let_def)
  next
    case 5
    then show ?thesis using len
      by (cases eo) (simp_all add: installApp_def st installApp_resume_def cs Let_def pl eo)
  qed
qed

lemma resume_early_failure:
  assumes "fst (installApp_resume env w app s) = failed_result app e" "before_placing e"
  shows "setappDir_entries (snd (installApp_resume env w app s)) = setappDir_entries w"
proof (cases "awaited s")
  case (Rejected x)
  then show ?thesis by (simp add: installApp_resume_def)
next
  case Fulfilled
  show ?thesis
  proof (cases "place env (emit (Exec (FindName (tempDir s) ''*.app'')) (emit (Exec (Unzip (tempFile s) (tempDir s))) (emit (Exec (MkdirP (tempDir s))) w))) (appFiles env app (tempDir s))")
    case (Pair eo w4)
    show ?thesis
    proof (cases eo)
      case None
      with Pair Fulfilled assms show ?thesis
        by (auto simp: installApp_resume_def Let_def failed_result_def installed_result_def
            before_placing_def split: if_splits)
    next
      case (Some e')
      with Pair have "fst (place env (emit (Exec (FindName (tempDir s) ''*.app'')) (emit (Exec (Unzip (tempFile s) (tempDir s))) (emit (Exec (MkdirP (tempDir s))) w))) (appFiles env app (tempDir s))) = Some e'"
        by simp
      then obtain f where "e' = ExecFailed (sudo_mv f)"
        using place_error by blast
      then have "e' = ExecFailed (SudoMv f (setappDir @ ''/'' @ last (split (CHR ''/'') f)))"
        by (simp add: sudo_mv_def)
      with Some Pair Fulfilled assms show ?thesis
        by (auto simp: installApp_resume_def Let_def failed_result_def installed_result_def
            before_placing_def split: if_splits)
    qed
  qed
qed

lemma installApp_early_failure:
  assumes "fst (installApp env pf w app) = failed_result app e" "before_placing e"
  shows "setappDir_entries (snd (installApp env pf w app)) = setappDir_entries w"
proof (cases "installApp_start env pf w app")
  case (Pair p w1)
  have e1: "setappDir_entries w1 = setappDir_entries w"
    using start_entries [of env pf w app] Pair by simp
  show ?thesis
  proof (cases p)
    case (Inl r)
    with Pair e1 show ?thesis by (simp add: installApp_def)
  next
    case (Inr s)
    with Pair assms resume_early_failure [of env w1 app s e] e1 show ?thesis
      by (simp add: installApp_def)
  qed
qed

lemma run_sequential_nth:
  "i < length apps \<Longrightarrow>
   fst (run_sequential env w apps) ! i =
   fst (installApp env False (snd (run_sequential env w (take i apps))) (apps ! i))"
proof (induction apps arbitrary: w i)
  case Nil
  then show ?case by simp
next
  case (Cons a apps)
  show ?case
  proof (cases i)
    case 0
    then show ?thesis by (simp add: split_beta Let_def)
  next
    case (Suc j)
    with Cons.prems have "j < length apps" by simp
    from Cons.IH [OF this, of "snd (installApp env False w a)"] Suc
    show ?thesis by (simp add: split_beta Let_def)
  qed
qed

lemma corrupt_sequential:
  "fst (run_sequential corrupt_env demo_world [Foo, Bar, Baz]) =
   [installed_result Foo,
    failed_result Bar (ExecFailed (Unzip Bar_zip ''/tmp/setapp_0000000000000001_7'')),
    installed_result Baz]"
  by (simp add: demo_defs run_defs char_eval)

lemma corrupt_parallel:
  "fst (run_parallel corrupt_env demo_world [Foo, Bar, Baz]) =
   [installed_result Foo,
    failed_result Bar (ExecFailed (Unzip Bar_zip ''/tmp/setapp_0000000000000001_7'')),
    installed_result Baz]"
  by (simp add: run_parallel_def demo_defs run_defs char_eval)

lemma start_all_nth:
  "i < length apps \<Longrightarrow>
   fst (start_all env w apps) ! i =
   (apps ! i, fst (installApp_start env True (snd (start_all env w (take i apps))) (apps ! i)))"
proof (induction apps arbitrary: w i)
  case Nil
  then show ?case by simp
next
  case (Cons a apps)
  show ?case
  proof (cases i)
    case 0
    then show ?thesis by (simp add: split_beta Let_def)
  next
    case (Suc j)
    with Cons.prems have "j < length apps" by simp
    from Cons.IH [OF this, of "snd (installApp_start env True w a)"] Suc
    show ?thesis by (simp add: split_beta Let_def)
  qed
qed

lemma settle_all_nth:
  "i < length ps \<Longrightarrow>
   fst (settle_all env w ps) ! i =
   fst (case snd (ps ! i) of
          Inl r \<Rightarrow> (r, w)
        | Inr s \<Rightarrow> installApp_resume env (snd (settle_all env w (take i ps))) (fst (ps ! i)) s)"
proof (induction ps arbitrary: w i)
  case Nil
  then show ?case by simp
next
  case (Cons ap ps)
  obtain a p where ap: "ap = (a, p)" by (cases ap)
  show ?case
  proof (cases i)
    case 0
    then show ?thesis by (cases p) (simp_all add: ap split_beta Let_def)
  next
    case (Suc j)
    with Cons.prems have j: "j < length ps" by simp
    let ?w1 = "snd (case p of Inl r \<Rightarrow> (r, w) | Inr s \<Rightarrow> installApp_resume env w a s)"
    from Cons.IH [OF j, of ?w1] Suc
    show ?thesis by (cases "snd (ps ! j)") (simp_all add: ap split_beta Let_def)
  qed
qed

lemma start_all_length [simp]: "length (fst (start_all env w apps)) = length apps"
  by (induction apps arbitrary: w) (simp_all add: split_beta Let_def)

lemma run_parallel_nth:
  assumes "i < length apps"
  shows "fst (run_parallel env w apps) ! i =
   fst (case fst (installApp_start env True (snd (start_all env w (take i apps))) (apps ! i)) of
          Inl r \<Rightarrow> (r, w)
        | Inr s \<Rightarrow>
            installApp_resume env
              (snd (settle_all env (snd (start_all env w apps)) (take i (fst (start_all env w apps)))))
              (apps ! i) s)"
proof -
  have "i < length (fst (start_all env w apps))" using assms by simp
  from settle_all_nth [OF this, of env "snd (start_all env w apps)"] start_all_nth [OF assms, of env w]
  show ?thesis
    by (cases "fst (installApp_start env True (snd (start_all env w (take i apps))) (apps ! i))")
       (simp_all add: run_parallel_def split_beta)
qed

lemma Foo_no_shell:
  "installApp no_shell_env False demo_world Foo =
     (failed_result Foo (ExecFailed (FindExisting ''/Applications/Setapp'' ''Foo'')),
      demo_world\<lparr>trace := [Exec (FindExisting ''/Applications/Setapp'' ''Foo'')]\<rparr>)"
  by (simp add: demo_defs run_defs)

lemma Foo_offline:
  "fst (installApp offline_env False demo_world Foo) =
     failed_result Foo
       (ExecFailed (Curl ''http://x/a.zip'' ''/tmp/setapp_0000000000000000_42.zip'' True))"
  by (simp add: demo_defs run_defs char_eval)

lemma Foo_no_mkdir:
  "fst (installApp no_mkdir_env False demo_world Foo) =
     failed_result Foo (ExecFailed (MkdirP ''/tmp/setapp_0000000000000000_42''))"
  by (simp add: demo_defs run_defs char_eval)

lemma Foo_no_find:
  "fst (installApp no_find_env False demo_world Foo) =
     failed_result Foo (ExecFailed (FindName ''/tmp/setapp_0000000000000000_42'' ''*.app''))"
  by (simp add: demo_defs run_defs char_eval)

lemma Foo_no_sudo:
  "installApp no_sudo_env False demo_world Foo =
     (failed_result Foo
        (ExecFailed (SudoMv ''/tmp/setapp_0000000000000000_42/Foo.app''
                       ''/Applications/Setapp/Foo.app'')),
      demo_world\<lparr>random_calls := 1,
        trace := [Exec (FindExisting ''/Applications/Setapp'' ''Foo''),
                  Exec (Curl ''http://x/a.zip'' ''/tmp/setapp_0000000000000000_42.zip'' True),
                  Exec (MkdirP ''/tmp/setapp_0000000000000000_42''),
                  Exec (Unzip ''/tmp/setapp_0000000000000000_42.zip'' ''/tmp/setapp_0000000000000000_42''),
                  Exec (FindName ''/tmp/setapp_0000000000000000_42'' ''*.app''),
                  Exec (SudoMv ''/tmp/setapp_0000000000000000_42/Foo.app''
                          ''/Applications/Setapp/Foo.app'')]\<rparr>)"
  by (simp add: demo_defs run_defs char_eval)

lemma Foo_no_rm:
  "fst (installApp no_rm_env False demo_world Foo) =
     failed_result Foo
       (ExecFailed (RmRf ''/tmp/setapp_0000000000000000_42'' ''/tmp/setapp_0000000000000000_42.zip''))"
  by (simp add: demo_defs run_defs char_eval)

lemma Foo_installed:
  "installApp demo_env False demo_world Foo =
     (installed_result Foo,
      demo_world\<lparr>setappDir_entries := [''Foo.app''], random_calls := 1,
        trace := [Exec (FindExisting ''/Applications/Setapp'' ''Foo''),
                  Exec (Curl ''http://x/a.zip'' ''/tmp/setapp_0000000000000000_42.zip'' True),
                  Exec (MkdirP ''/tmp/setapp_0000000000000000_42''),
                  Exec (Unzip ''/tmp/setapp_0000000000000000_42.zip'' ''/tmp/setapp_0000000000000000_42''),
                  Exec (FindName ''/tmp/setapp_0000000000000000_42'' ''*.app''),
                  Exec (SudoMv ''/tmp/setapp_0000000000000000_42/Foo.app''
                          ''/Applications/Setapp/Foo.app''),
                  Exec (RmRf ''/tmp/setapp_0000000000000000_42''
                          ''/tmp/setapp_0000000000000000_42.zip'')]\<rparr>)"
  by (simp add: demo_defs run_defs char_eval)

lemma no_sudo_sequential:
  "fst (run_sequential no_sudo_env demo_world [Bar, Foo, Baz]) =
   [installed_result Bar,
    failed_result Foo
      (ExecFailed (SudoMv ''/tmp/setapp_0000000000000001_42/Foo.app''
                     ''/Applications/Setapp/Foo.app'')),
    failed_result Baz
      (ExecFailed (SudoMv ''/tmp/setapp_0000000000000002_8/Baz.app''
                     ''/Applications/Setapp/Baz.app''))]"
  by (simp add: demo_defs run_defs char_eval)

text \<open>
  C1. In both modes the list of results has one result for each target, in the order of
  the targets: the i-th result carries the name of the i-th target, and it is either a
  success without an error or a failure with the error that was caught. In the sequential
  mode the i-th result is what \<open>installApp\<close> returns for the i-th target in the world the
  targets before it have left, whether they failed or not. In the parallel mode it is what
  the i-th call returns: the result of its start, or the result of its continuation in the
  world the continuations before it have left. Every command of the pipeline that throws
  gives a failed result for its target, with the error of that command: the search of line
  264, after which nothing else is run; the first of the download, the creation of the
  directory, the extraction and the search for bundles that fails; the first move of a
  bundle that fails; and the removal of the temporary files. A failed result has
  \<open>success\<close> false. A target that fails before anything is placed leaves the destination
  directory as it found it.
\<close>

theorem results_one_per_target:
  "length (fst (results env parallelFlag w apps)) = length apps
   \<and> list_all2 outcome_of apps (fst (results env parallelFlag w apps))
   \<and> map result_name (fst (results env parallelFlag w apps)) = map name apps
   \<and> (i < length apps \<longrightarrow>
        fst (results env False w apps) ! i =
        fst (installApp env False (snd (results env False w (take i apps))) (apps ! i)))
   \<and> (i < length apps \<longrightarrow>
        fst (results env True w apps) ! i =
        fst (case fst (installApp_start env True (snd (start_all env w (take i apps))) (apps ! i)) of
               Inl r \<Rightarrow> (r, w)
             | Inr s \<Rightarrow>
                 installApp_resume env
                   (snd (settle_all env (snd (start_all env w apps))
                           (take i (fst (start_all env w apps)))))
                   (apps ! i) s))
   \<and> (\<not> exits_zero env (FindExisting setappDir (name app)) \<longrightarrow>
        installApp env parallelFlag w app =
          (failed_result app (ExecFailed (FindExisting setappDir (name app))),
           emit (Exec (FindExisting setappDir (name app))) w))
   \<and> (exits_zero env (FindExisting setappDir (name app)) \<and> existingApps env w app = [] \<longrightarrow>
        fst (installApp env parallelFlag w app) =
          (case List.find (\<lambda>c. \<not> exits_zero env c) (commands_before_placing env parallelFlag w app) of
             Some c \<Rightarrow> failed_result app (ExecFailed c)
           | None \<Rightarrow>
               (case fst (place env w (appFiles env app (temp_dir env w app))) of
                  Some e \<Rightarrow> failed_result app e
                | None \<Rightarrow>
                    if exits_zero env (RmRf (temp_dir env w app) (temp_dir env w app @ ''.zip''))
                    then installed_result app
                    else failed_result app
                           (ExecFailed (RmRf (temp_dir env w app) (temp_dir env w app @ ''.zip''))))))
   \<and> (f \<noteq> [] \<and> \<not> existsSync_dest w (last (split (CHR ''/'') f)) \<and> \<not> exits_zero env (sudo_mv f) \<longrightarrow>
        fst (place env w (f # fs)) = Some (ExecFailed (sudo_mv f)))
   \<and> (fst (place env w fs) = Some e \<longrightarrow>
        (\<exists>g. g \<in> set fs \<and> g \<noteq> [] \<and> e = ExecFailed (sudo_mv g) \<and> \<not> exits_zero env (sudo_mv g)))
   \<and> ((\<forall>g \<in> set fs. exits_zero env (sudo_mv g)) \<longrightarrow> fst (place env w fs) = None)
   \<and> \<not> success (failed_result app e)
   \<and> (fst (installApp env parallelFlag w app) = failed_result app e \<and> before_placing e \<longrightarrow>
        setappDir_entries (snd (installApp env parallelFlag w app)) = setappDir_entries w)"
proof (intro conjI impI)
  have o: "list_all2 outcome_of apps (fst (results env parallelFlag w apps))"
    by (rule results_outcomes)
  then show "list_all2 outcome_of apps (fst (results env parallelFlag w apps))" .
  from o show "length (fst (results env parallelFlag w apps)) = length apps"
    by (simp add: list_all2_lengthD)
  from o show "map result_name (fst (results env parallelFlag w apps)) = map name apps"
    by (rule outcomes_names)
next
  assume "i < length apps"
  then show "fst (results env False w apps) ! i =
        fst (installApp env False (snd (results env False w (take i apps))) (apps ! i))"
    by (simp add: results_def run_sequential_nth)
next
  assume "i < length apps"
  then show "fst (results env True w apps) ! i =
        fst (case fst (installApp_start env True (snd (start_all env w (take i apps))) (apps ! i)) of
               Inl r \<Rightarrow> (r, w)
             | Inr s \<Rightarrow>
                 installApp_resume env
                   (snd (settle_all env (snd (start_all env w apps))
                           (take i (fst (start_all env w apps)))))
                   (apps ! i) s)"
    by (simp add: results_def run_parallel_nth)
next
  assume "\<not> exits_zero env (FindExisting setappDir (name app))"
  then show "installApp env parallelFlag w app =
          (failed_result app (ExecFailed (FindExisting setappDir (name app))),
           emit (Exec (FindExisting setappDir (name app))) w)"
    by (rule installApp_find_fails)
next
  assume "exits_zero env (FindExisting setappDir (name app)) \<and> existingApps env w app = []"
  then have 1: "exits_zero env (FindExisting setappDir (name app))"
    and 2: "existingApps env w app = []" by simp_all
  from 1 2 show "fst (installApp env parallelFlag w app) =
          (case List.find (\<lambda>c. \<not> exits_zero env c) (commands_before_placing env parallelFlag w app) of
             Some c \<Rightarrow> failed_result app (ExecFailed c)
           | None \<Rightarrow>
               (case fst (place env w (appFiles env app (temp_dir env w app))) of
                  Some e \<Rightarrow> failed_result app e
                | None \<Rightarrow>
                    if exits_zero env (RmRf (temp_dir env w app) (temp_dir env w app @ ''.zip''))
                    then installed_result app
                    else failed_result app
                           (ExecFailed (RmRf (temp_dir env w app) (temp_dir env w app @ ''.zip'')))))"
    by (rule installApp_result)
next
  assume "f \<noteq> [] \<and> \<not> existsSync_dest w (last (split (CHR ''/'') f)) \<and> \<not> exits_zero env (sudo_mv f)"
  then show "fst (place env w (f # fs)) = Some (ExecFailed (sudo_mv f))"
    by (simp add: place_first_fails del: place.simps)
next
  assume "fst (place env w fs) = Some e"
  then show "\<exists>g. g \<in> set fs \<and> g \<noteq> [] \<and> e = ExecFailed (sudo_mv g) \<and> \<not> exits_zero env (sudo_mv g)"
    by (rule place_error)
next
  assume "\<forall>g \<in> set fs. exits_zero env (sudo_mv g)"
  then show "fst (place env w fs) = None" by (rule place_all_succeed)
next
  show "\<not> success (failed_result app e)" by (simp add: failed_result_def)
next
  assume "fst (installApp env parallelFlag w app) = failed_result app e \<and> before_placing e"
  then show "setappDir_entries (snd (installApp env parallelFlag w app)) = setappDir_entries w"
    by (simp add: installApp_early_failure)
qed

theorem results_one_per_target_witness:
  "length (fst (results corrupt_env True demo_world [Foo, Bar, Baz])) = 3
   \<and> map result_name (fst (results corrupt_env True demo_world [Foo, Bar, Baz])) = [''Foo'', ''Bar'', ''Baz'']
   \<and> fst (results corrupt_env False demo_world [Foo, Bar, Baz]) =
       [installed_result Foo,
        failed_result Bar (ExecFailed (Unzip Bar_zip ''/tmp/setapp_0000000000000001_7'')),
        installed_result Baz]
   \<and> fst (results corrupt_env True demo_world [Foo, Bar, Baz]) =
       [installed_result Foo,
        failed_result Bar (ExecFailed (Unzip Bar_zip ''/tmp/setapp_0000000000000001_7'')),
        installed_result Baz]
   \<and> fst (results no_sudo_env False demo_world [Bar, Foo, Baz]) =
       [installed_result Bar,
        failed_result Foo
          (ExecFailed (SudoMv ''/tmp/setapp_0000000000000001_42/Foo.app''
                         ''/Applications/Setapp/Foo.app'')),
        failed_result Baz
          (ExecFailed (SudoMv ''/tmp/setapp_0000000000000002_8/Baz.app''
                         ''/Applications/Setapp/Baz.app''))]
   \<and> fst (installApp corrupt_env False (snd (results corrupt_env False demo_world [Foo])) Bar) =
       failed_result Bar (ExecFailed (Unzip Bar_zip ''/tmp/setapp_0000000000000001_7''))
   \<and> installApp no_shell_env False demo_world Foo =
       (failed_result Foo (ExecFailed (FindExisting ''/Applications/Setapp'' ''Foo'')),
        demo_world\<lparr>trace := [Exec (FindExisting ''/Applications/Setapp'' ''Foo'')]\<rparr>)
   \<and> fst (installApp offline_env False demo_world Foo) =
       failed_result Foo
         (ExecFailed (Curl ''http://x/a.zip'' ''/tmp/setapp_0000000000000000_42.zip'' True))
   \<and> fst (installApp no_mkdir_env False demo_world Foo) =
       failed_result Foo (ExecFailed (MkdirP ''/tmp/setapp_0000000000000000_42''))
   \<and> fst (installApp no_find_env False demo_world Foo) =
       failed_result Foo (ExecFailed (FindName ''/tmp/setapp_0000000000000000_42'' ''*.app''))
   \<and> fst (installApp no_sudo_env False demo_world Foo) =
       failed_result Foo
         (ExecFailed (SudoMv ''/tmp/setapp_0000000000000000_42/Foo.app''
                        ''/Applications/Setapp/Foo.app''))
   \<and> setappDir_entries (snd (installApp no_sudo_env False demo_world Foo)) = []
   \<and> fst (installApp no_rm_env False demo_world Foo) =
       failed_result Foo
         (ExecFailed (RmRf ''/tmp/setapp_0000000000000000_42'' ''/tmp/setapp_0000000000000000_42.zip''))
   \<and> installApp demo_env False demo_world Foo =
       (installed_result Foo,
        demo_world\<lparr>setappDir_entries := [''Foo.app''], random_calls := 1,
          trace := [Exec (FindExisting ''/Applications/Setapp'' ''Foo''),
                    Exec (Curl ''http://x/a.zip'' ''/tmp/setapp_0000000000000000_42.zip'' True),
                    Exec (MkdirP ''/tmp/setapp_0000000000000000_42''),
                    Exec (Unzip ''/tmp/setapp_0000000000000000_42.zip'' ''/tmp/setapp_0000000000000000_42''),
                    Exec (FindName ''/tmp/setapp_0000000000000000_42'' ''*.app''),
                    Exec (SudoMv ''/tmp/setapp_0000000000000000_42/Foo.app''
                            ''/Applications/Setapp/Foo.app''),
                    Exec (RmRf ''/tmp/setapp_0000000000000000_42''
                            ''/tmp/setapp_0000000000000000_42.zip'')]\<rparr>)
   \<and> setappDir_entries (snd (installApp offline_env False demo_world Foo)) = []"
proof -
  note t = results_one_per_target [of corrupt_env True demo_world "[Foo, Bar, Baz]"]
  from t have 1: "length (fst (results corrupt_env True demo_world [Foo, Bar, Baz])) = 3"
    and 2: "map result_name (fst (results corrupt_env True demo_world [Foo, Bar, Baz])) = [''Foo'', ''Bar'', ''Baz'']"
    by (simp_all add: Foo_def Bar_def Baz_def)
  have s: "fst (results corrupt_env False demo_world [Foo, Bar, Baz]) =
       [installed_result Foo,
        failed_result Bar (ExecFailed (Unzip Bar_zip ''/tmp/setapp_0000000000000001_7'')),
        installed_result Baz]"
    using corrupt_sequential by (simp add: results_def del: run_sequential.simps)
  have p: "fst (results corrupt_env True demo_world [Foo, Bar, Baz]) =
       [installed_result Foo,
        failed_result Bar (ExecFailed (Unzip Bar_zip ''/tmp/setapp_0000000000000001_7'')),
        installed_result Baz]"
    using corrupt_parallel by (simp add: results_def)
  have n: "fst (results no_sudo_env False demo_world [Bar, Foo, Baz]) =
       [installed_result Bar,
        failed_result Foo
          (ExecFailed (SudoMv ''/tmp/setapp_0000000000000001_42/Foo.app''
                         ''/Applications/Setapp/Foo.app'')),
        failed_result Baz
          (ExecFailed (SudoMv ''/tmp/setapp_0000000000000002_8/Baz.app''
                         ''/Applications/Setapp/Baz.app''))]"
    using no_sudo_sequential by (simp add: results_def del: run_sequential.simps)
  have l: "(1::nat) < length [Foo, Bar, Baz]" by simp
  from results_one_per_target [of corrupt_env False demo_world "[Foo, Bar, Baz]" 1] l
  have "fst (results corrupt_env False demo_world [Foo, Bar, Baz]) ! 1 =
        fst (installApp corrupt_env False (snd (results corrupt_env False demo_world (take 1 [Foo, Bar, Baz]))) ([Foo, Bar, Baz] ! 1))"
    by blast
  then have 3: "fst (installApp corrupt_env False (snd (results corrupt_env False demo_world [Foo])) Bar) =
       failed_result Bar (ExecFailed (Unzip Bar_zip ''/tmp/setapp_0000000000000001_7''))"
    unfolding s by simp
  have x: "\<not> exits_zero no_shell_env (FindExisting setappDir (name Foo))"
    by (simp add: no_shell_env_def)
  from results_one_per_target [of no_shell_env False demo_world "[]" 0 Foo] x
  have "installApp no_shell_env False demo_world Foo =
          (failed_result Foo (ExecFailed (FindExisting setappDir (name Foo))),
           emit (Exec (FindExisting setappDir (name Foo))) demo_world)" by blast
  then have 4: "installApp no_shell_env False demo_world Foo =
       (failed_result Foo (ExecFailed (FindExisting ''/Applications/Setapp'' ''Foo'')),
        demo_world\<lparr>trace := [Exec (FindExisting ''/Applications/Setapp'' ''Foo'')]\<rparr>)"
    by (simp add: Foo_no_shell)
  have bp: "before_placing (ExecFailed (Curl ''http://x/a.zip'' ''/tmp/setapp_0000000000000000_42.zip'' True))"
    by (simp add: before_placing_def)
  from results_one_per_target [of offline_env False demo_world "[]" 0 Foo "[]" "[]"
      "ExecFailed (Curl ''http://x/a.zip'' ''/tmp/setapp_0000000000000000_42.zip'' True)"]
    Foo_offline bp
  have "setappDir_entries (snd (installApp offline_env False demo_world Foo)) =
      setappDir_entries demo_world" by blast
  then have 5: "setappDir_entries (snd (installApp offline_env False demo_world Foo)) = []"
    by (simp add: demo_world_def)
  have 6: "setappDir_entries (snd (installApp no_sudo_env False demo_world Foo)) = []"
    unfolding Foo_no_sudo by (simp add: demo_world_def)
  have 7: "fst (installApp no_sudo_env False demo_world Foo) =
       failed_result Foo
         (ExecFailed (SudoMv ''/tmp/setapp_0000000000000000_42/Foo.app''
                        ''/Applications/Setapp/Foo.app''))"
    by (simp add: Foo_no_sudo)
  show ?thesis
    by (intro conjI 1 2 s p n 3 4 Foo_offline Foo_no_mkdir Foo_no_find 7 6 Foo_no_rm Foo_installed 5)
qed

section \<open>The two schedules\<close>


lemma place_random [simp]: "random_calls (snd (place env w fs)) = random_calls w"
proof (induction fs arbitrary: w)
  case Nil
  then show ?case by simp
next
  case (Cons f fs)
  show ?case by (simp add: Let_def Cons.IH emit_def)
qed

lemma emit_random [simp]: "random_calls (emit e w) = random_calls w"
  by (simp add: emit_def)

lemma resume_random [simp]: "random_calls (snd (installApp_resume env w app s)) = random_calls w"
proof (cases "awaited s")
  case (Rejected e)
  then show ?thesis by (simp add: installApp_resume_def)
next
  case Fulfilled
  let ?pre = "emit (Exec (FindName (tempDir s) ''*.app''))
      (emit (Exec (Unzip (tempFile s) (tempDir s))) (emit (Exec (MkdirP (tempDir s))) w))"
  obtain eo w4 where p1: "place env ?pre (appFiles env app (tempDir s)) = (eo, w4)"
    by (cases "place env ?pre (appFiles env app (tempDir s))")
  have "random_calls (snd (place env ?pre (appFiles env app (tempDir s)))) = random_calls ?pre"
    by (rule place_random)
  with p1 have "random_calls w4 = random_calls w" by simp
  then show ?thesis using Fulfilled p1
    by (simp add: installApp_resume_def Let_def split: option.splits)
qed












lemma start_all_entries [simp]:
  "setappDir_entries (snd (start_all env w apps)) = setappDir_entries w"
  by (induction apps arbitrary: w) (simp_all add: split_beta Let_def)











text \<open>
  The condition on the existing bundles is needed. The parallel mode runs every check
  before anything is placed, the sequential mode runs each check after the targets before
  it have finished: a target given twice is installed and then skipped in the one, and
  goes twice through the pipeline in the other.
\<close>

lemma duplicate_target_differs:
  "fst (run_sequential demo_env demo_world [Foo, Foo]) = [installed_result Foo, skipped_result Foo]
   \<and> fst (run_parallel demo_env demo_world [Foo, Foo]) = [installed_result Foo, installed_result Foo]"
  by (simp add: run_parallel_def demo_defs run_defs char_eval)

section \<open>The cache\<close>








lemma fetches_emit_Exec [simp]: "fetches (emit (Exec c) w) = fetches w"
  by (simp add: fetches_emit)

lemma fetches_entries_update [simp]: "fetches (w\<lparr>setappDir_entries := x\<rparr>) = fetches w"
  by (simp add: fetches_def)

lemma fetches_random_update [simp]: "fetches (w\<lparr>random_calls := x\<rparr>) = fetches w"
  by (simp add: fetches_def)

lemma place_fetches [simp]: "fetches (snd (place env w fs)) = fetches w"
proof (induction fs arbitrary: w)
  case Nil
  then show ?case by simp
next
  case (Cons f fs)
  show ?case by (simp add: Let_def Cons.IH)
qed

lemma resume_fetches [simp]: "fetches (snd (installApp_resume env w app s)) = fetches w"
proof (cases "awaited s")
  case (Rejected e)
  then show ?thesis by (simp add: installApp_resume_def)
next
  case Fulfilled
  let ?pre = "emit (Exec (FindName (tempDir s) ''*.app''))
      (emit (Exec (Unzip (tempFile s) (tempDir s))) (emit (Exec (MkdirP (tempDir s))) w))"
  obtain eo w4 where p1: "place env ?pre (appFiles env app (tempDir s)) = (eo, w4)"
    by (cases "place env ?pre (appFiles env app (tempDir s))")
  have "fetches (snd (place env ?pre (appFiles env app (tempDir s)))) = fetches ?pre"
    by (rule place_fetches)
  with p1 have "fetches w4 = fetches w" by simp
  then show ?thesis using Fulfilled p1
    by (simp add: installApp_resume_def Let_def split: option.splits)
qed

lemma start_fetches [simp]: "fetches (snd (installApp_start env pf w app)) = fetches w"
  by (simp add: installApp_start_def Let_def)

lemma installApp_fetches [simp]: "fetches (snd (installApp env pf w app)) = fetches w"
proof (cases "installApp_start env pf w app")
  case (Pair p w1)
  then have "fetches w1 = fetches w" using start_fetches [of env pf w app] by simp
  with Pair show ?thesis by (cases p) (simp_all add: installApp_def)
qed

lemma run_sequential_fetches [simp]: "fetches (snd (run_sequential env w apps)) = fetches w"
  by (induction apps arbitrary: w) (simp_all add: split_beta Let_def)

lemma start_all_fetches [simp]: "fetches (snd (start_all env w apps)) = fetches w"
  by (induction apps arbitrary: w) (simp_all add: split_beta Let_def)

lemma settle_all_fetches [simp]: "fetches (snd (settle_all env w ps)) = fetches w"
proof (induction ps arbitrary: w)
  case Nil
  then show ?case by simp
next
  case (Cons ap ps)
  obtain a p where ap: "ap = (a, p)" by (cases ap)
  show ?case by (cases p) (simp_all add: ap split_beta Let_def Cons.IH)
qed










lemma getCatalog_write:
  assumes "useCache env w = None" "fetch_result env = Some r"
  shows "(writeFileSync env = Written \<longrightarrow>
            fst (getCatalog env w) = Inr (body r) \<and>
            (\<exists>c. cacheFile (snd (getCatalog env w)) = Stored c \<and> data c = body r \<and>
                 expiry c = JSON_stringify_number
                              (expiryTime (Date_getTime env) (now_at_fetch env)
                                 (cache_control r) (expires r))))
       \<and> (writeFileSync env = NotOpened \<longrightarrow>
            fst (getCatalog env w) = Inl WriteFailed \<and> cacheFile (snd (getCatalog env w)) = cacheFile w)
       \<and> (writeFileSync env = CutShort \<longrightarrow>
            fst (getCatalog env w) = Inl WriteFailed \<and> cacheFile (snd (getCatalog env w)) = Unparsable)"
  using assms by (simp add: getCatalog_def fetch_catalog_def Let_def emit_def)

lemma useCache_after_ensure:
  "useCache env w = None \<Longrightarrow> ensure_cacheDir env w = (None, w0) \<Longrightarrow> useCache env w0 = None"
  by (auto simp: ensure_cacheDir_def useCache_def emit_def split: if_splits)

lemma js_less_later:
  "\<not> js_less (Date_now t) v \<Longrightarrow> t \<le> t' \<Longrightarrow> \<not> js_less (Date_now t') v"
  by (cases v) (auto simp: js_less_def Date_now_def)

lemma useCache_later:
  assumes "useCache env w = None" "now_at_check env \<le> now_at_check env'"
  shows "useCache env' w = None"
proof (cases "cacheFile w")
  case (Stored c)
  show ?thesis
  proof (cases "truthy_val (expiry c)")
    case True
    with assms(1) Stored have "\<not> js_less (Date_now (now_at_check env)) (ToNumber (expiry c))"
      by (auto simp: useCache_def Let_def split: if_splits)
    from js_less_later [OF this assms(2)] show ?thesis by (simp add: useCache_def Stored)
  next
    case False
    then show ?thesis by (simp add: useCache_def Stored)
  qed
qed (simp_all add: useCache_def)

lemma main_write_failure:
  assumes "useCache env w = None" "fetch_result env = Some r" "writeFileSync env \<noteq> Written"
  shows "exit_code (main env w argv) = 1 \<and> install_results (main env w argv) = []
     \<and> downloads (world_after (main env w argv)) = downloads w"
proof -
  obtain command appIdentifiers nameFlag parallelFlag
    where pa: "parse_args argv = (command, appIdentifiers, nameFlag, parallelFlag)"
    by (cases "parse_args argv") auto
  obtain eo w0 where ec: "ensure_cacheDir env w = (eo, w0)" by (cases "ensure_cacheDir env w") auto
  have dl0: "downloads w0 = downloads w"
    using ec by (auto simp: ensure_cacheDir_def downloads_def emit_def is_download_def split: if_splits)
  show ?thesis
  proof (cases eo)
    case (Some e)
    then show ?thesis using pa ec dl0 by (simp add: main_def exit'_def)
  next
    case None
    with ec assms(1) have uc: "useCache env w0 = None" by (auto intro: useCache_after_ensure)
    from assms(3) have "writeFileSync env = NotOpened \<or> writeFileSync env = CutShort"
      by (cases "writeFileSync env") simp_all
    then obtain w1 where gc: "getCatalog env w0 = (Inl WriteFailed, w1)"
      using getCatalog_write [OF uc assms(2)] by (cases "getCatalog env w0") auto
    have "downloads (snd (getCatalog env w0)) = downloads w0"
      using uc assms(2)
      by (simp add: getCatalog_def fetch_catalog_def Let_def downloads_emit is_download_def
          downloads_def emit_def split: write_result.splits)
    then have dl1: "downloads w1 = downloads w0" by (simp add: gc)
    show ?thesis using dl0 dl1
      by (simp add: main_def pa ec None gc exit'_def)
  qed
qed

lemma demo_useCache:
  "useCache demo_env demo_world = None" "useCache readonly_env demo_world = None"
  "useCache full_disk_env demo_world = None"
  by (simp_all add: useCache_def demo_world_def)

lemma demo_fetch:
  "fetch_result demo_env = Some demo_response" "fetch_result readonly_env = Some demo_response"
  "fetch_result full_disk_env = Some demo_response"
  by (simp_all add: demo_env_def readonly_env_def full_disk_env_def)

text \<open>
  C4 asks that a run whose cache record cannot be written go on with the document it has
  fetched. The code reads the cache inside a \<^verbatim>\<open>try\<close> (lines 76 to 86) and goes on to the
  remote source when reading fails, but writes it outside any (line 126). So for every run
  that has no cache to use and whose fetch succeeds: when the record is written, the run has
  the fetched document and the file holds that document with the computed expiry; when
  \<^verbatim>\<open>fs.writeFileSync\<close> throws, there is no catalog, the run ends with status 1 without an
  install result and without a download, and the cache file is as it was when it could not
  be opened, and unreadable when writing stopped after it was opened, so that a later run
  fetches again.
\<close>

theorem cache_write_failure_is_fatal:
  assumes "useCache env w = None" and "fetch_result env = Some r"
  shows "(writeFileSync env = Written \<longrightarrow>
            fst (getCatalog env w) = Inr (body r) \<and>
            (\<exists>c. cacheFile (snd (getCatalog env w)) = Stored c \<and> data c = body r \<and>
                 expiry c = JSON_stringify_number
                              (expiryTime (Date_getTime env) (now_at_fetch env)
                                 (cache_control r) (expires r))))
       \<and> (writeFileSync env \<noteq> Written \<longrightarrow>
            fst (getCatalog env w) = Inl WriteFailed \<and>
            cacheFile (snd (getCatalog env w)) =
              (if writeFileSync env = NotOpened then cacheFile w else Unparsable) \<and>
            (now_at_check env \<le> now_at_check env' \<longrightarrow>
               useCache env' (snd (getCatalog env w)) = None) \<and>
            exit_code (main env w argv) = 1 \<and>
            install_results (main env w argv) = [] \<and>
            downloads (world_after (main env w argv)) = downloads w)"
proof (intro conjI impI)
  assume "writeFileSync env = Written"
  with getCatalog_write [OF assms]
  show "fst (getCatalog env w) = Inr (body r)"
    and "\<exists>c. cacheFile (snd (getCatalog env w)) = Stored c \<and> data c = body r \<and>
           expiry c = JSON_stringify_number
                        (expiryTime (Date_getTime env) (now_at_fetch env)
                           (cache_control r) (expires r))"
    by blast+
next
  assume n: "writeFileSync env \<noteq> Written"
  then have k: "writeFileSync env = NotOpened \<or> writeFileSync env = CutShort"
    by (cases "writeFileSync env") simp_all
  with getCatalog_write [OF assms]
  show 1: "fst (getCatalog env w) = Inl WriteFailed" by blast
  from k getCatalog_write [OF assms]
  show 2: "cacheFile (snd (getCatalog env w)) =
      (if writeFileSync env = NotOpened then cacheFile w else Unparsable)" by auto
  from main_write_failure [OF assms n, of argv]
  show "exit_code (main env w argv) = 1" "install_results (main env w argv) = []"
    "downloads (world_after (main env w argv)) = downloads w" by simp_all
  {
    assume l: "now_at_check env \<le> now_at_check env'"
    have "useCache env' w = None" using assms(1) l by (rule useCache_later)
    then show "useCache env' (snd (getCatalog env w)) = None"
      using 2 by (auto simp: useCache_def split: if_splits)
  }
qed

theorem cache_write_failure_is_fatal_witness:
  "fst (getCatalog demo_env demo_world) = Inr (Catalog demo_catalog) \<and>
   fst (getCatalog readonly_env demo_world) = Inl WriteFailed \<and>
   cacheFile (snd (getCatalog readonly_env demo_world)) = NoFile \<and>
   exit_code (main readonly_env demo_world [''install'', ''42'']) = 1 \<and>
   install_results (main readonly_env demo_world [''install'', ''42'']) = [] \<and>
   downloads (world_after (main readonly_env demo_world [''install'', ''42''])) = 0 \<and>
   fst (getCatalog full_disk_env demo_world) = Inl WriteFailed \<and>
   cacheFile (snd (getCatalog full_disk_env demo_world)) = Unparsable \<and>
   useCache demo_env (snd (getCatalog full_disk_env demo_world)) = None \<and>
   exit_code (main full_disk_env demo_world [''install'', ''42'']) = 1"
proof -
  have w: "writeFileSync readonly_env = NotOpened" "writeFileSync demo_env = Written"
    "writeFileSync full_disk_env = CutShort"
    by (simp_all add: readonly_env_def full_disk_env_def demo_env_def)
  have d: "downloads demo_world = 0" "cacheFile demo_world = NoFile"
    by (simp_all add: downloads_def demo_world_def)
  have b: "body demo_response = Catalog demo_catalog" by (simp add: demo_response_def)
  have n: "now_at_check full_disk_env \<le> now_at_check demo_env"
    by (simp add: full_disk_env_def)
  from cache_write_failure_is_fatal [OF demo_useCache(1) demo_fetch(1), of demo_env "[]"] w b
  have 1: "fst (getCatalog demo_env demo_world) = Inr (Catalog demo_catalog)" by simp
  from cache_write_failure_is_fatal [OF demo_useCache(2) demo_fetch(2), of demo_env
      "[''install'', ''42'']"] w d
  have 2: "fst (getCatalog readonly_env demo_world) = Inl WriteFailed \<and>
   cacheFile (snd (getCatalog readonly_env demo_world)) = NoFile \<and>
   exit_code (main readonly_env demo_world [''install'', ''42'']) = 1 \<and>
   install_results (main readonly_env demo_world [''install'', ''42'']) = [] \<and>
   downloads (world_after (main readonly_env demo_world [''install'', ''42''])) = 0" by simp
  from cache_write_failure_is_fatal [OF demo_useCache(3) demo_fetch(3), of demo_env
      "[''install'', ''42'']"] w n
  have 3: "fst (getCatalog full_disk_env demo_world) = Inl WriteFailed \<and>
   cacheFile (snd (getCatalog full_disk_env demo_world)) = Unparsable \<and>
   useCache demo_env (snd (getCatalog full_disk_env demo_world)) = None \<and>
   exit_code (main full_disk_env demo_world [''install'', ''42'']) = 1" by simp
  from 1 2 3 show ?thesis by simp
qed

section \<open>The exit status\<close>

lemma main_unknown_command:
  assumes "cmd \<noteq> []" "cmd \<noteq> ''install''" "cmd \<noteq> ''list''"
    and "ensure_cacheDir env w = (None, w0)"
    and "getCatalog env w0 = (Inr (Catalog vs), w1)"
    and "ensure_setappDir env w1 = (None, w2)"
  shows "exit_code (main env w (cmd # rest)) = 0"
proof -
  obtain ids nf pf where pa: "parse_args (cmd # rest) = (Some cmd, ids, nf, pf)"
    by (simp add: parse_args_def Let_def)
  show ?thesis using assms by (simp add: main_def pa truthy_def exit'_def)
qed

lemma main_usage:
  assumes "parse_args argv = (command, appIdentifiers, nameFlag, parallelFlag)"
    and "\<not> truthy command \<or> (command = Some ''install'' \<and> appIdentifiers = [])"
  shows "main env w argv = exit' 1 w"
  using assms by (simp add: main_def)

lemma main_catalog_unavailable:
  assumes "parse_args argv = (command, appIdentifiers, nameFlag, parallelFlag)"
    and "truthy command" and "command = Some ''install'' \<longrightarrow> appIdentifiers \<noteq> []"
    and "ensure_cacheDir env w = (None, w0)"
    and "getCatalog env w0 = (Inl e, w1) \<or> getCatalog env w0 = (Inr OtherJson, w1)"
  shows "main env w argv = exit' 1 w1"
  using assms by (auto simp: main_def)

lemma main_no_valid_apps:
  assumes "parse_args argv = (Some ''install'', appIdentifiers, nameFlag, parallelFlag)"
    and "appIdentifiers \<noteq> []"
    and "ensure_cacheDir env w = (None, w0)"
    and "getCatalog env w0 = (Inr (Catalog vendors), w1)"
    and "ensure_setappDir env w1 = (None, w2)"
    and "appsToInstall (build_index vendors) nameFlag appIdentifiers = []"
  shows "main env w argv = exit' 1 w2"
  using assms by (simp add: main_def truthy_def)

lemma main_install_completes:
  assumes "parse_args argv = (Some ''install'', appIdentifiers, nameFlag, parallelFlag)"
    and "appIdentifiers \<noteq> []"
    and "ensure_cacheDir env w = (None, w0)"
    and "getCatalog env w0 = (Inr (Catalog vendors), w1)"
    and "ensure_setappDir env w1 = (None, w2)"
    and "appsToInstall (build_index vendors) nameFlag appIdentifiers \<noteq> []"
  shows "exit_code (main env w argv) = 0 \<and>
     install_results (main env w argv) =
       fst (results env parallelFlag w2 (appsToInstall (build_index vendors) nameFlag appIdentifiers))"
  using assms by (simp add: main_def truthy_def Let_def split_beta)

lemma main_list_completes:
  assumes "ensure_cacheDir env w = (None, w0)"
    and "getCatalog env w0 = (Inr (Catalog vendors), w1)"
    and "ensure_setappDir env w1 = (None, w2)"
  shows "exit_code (main env w (''list'' # rest)) = 0"
proof -
  obtain ids nf pf where pa: "parse_args (''list'' # rest) = (Some ''list'', ids, nf, pf)"
    by (simp add: parse_args_def Let_def)
  show ?thesis using assms by (simp add: main_def pa truthy_def exit'_def)
qed

lemma demo_getCatalog:
  "getCatalog demo_env demo_world = (Inr (Catalog demo_catalog), snd (getCatalog demo_env demo_world))"
  using getCatalog_write [OF demo_useCache(1) demo_fetch(1)]
  by (simp add: prod_eq_iff demo_env_def demo_response_def)

text \<open>
  C3 holds of the script but for one of its cases. The status is 1 when no command is
  given or \<^verbatim>\<open>install\<close> has no identifier (\<open>main_usage\<close>), when the catalog cannot be had
  (\<open>main_catalog_unavailable\<close>) and when no identifier resolves (\<open>main_no_valid_apps\<close>); it
  is 0 when \<^verbatim>\<open>install\<close> or \<^verbatim>\<open>list\<close> runs to its end, whatever the results of the targets
  (\<open>main_install_completes\<close>, \<open>main_list_completes\<close>). For a command that is neither
  \<^verbatim>\<open>install\<close> nor \<^verbatim>\<open>list\<close> the claim asks for a status other than 0. Lines 371 to 374 print
  two messages and call no \<open>process.exit\<close>, unlike lines 60 and 247: once the catalog is
  there, the status of such a run is 0.
\<close>

theorem unknown_command_exits_zero:
  assumes "command \<noteq> []" "command \<noteq> ''install''" "command \<noteq> ''list''"
    and "ensure_cacheDir env w = (None, w0)"
    and "getCatalog env w0 = (Inr (Catalog vendors), w1)"
    and "ensure_setappDir env w1 = (None, w2)"
  shows "exit_code (main env w (command # rest)) = 0"
  using assms by (rule main_unknown_command)

theorem unknown_command_exits_zero_witness:
  "exit_code (main demo_env demo_world [''frobnicate'']) = 0"
proof -
  have 1: "ensure_cacheDir demo_env demo_world = (None, demo_world)"
    by (simp add: ensure_cacheDir_def demo_env_def)
  have 3: "ensure_setappDir demo_env (snd (getCatalog demo_env demo_world)) =
      (None, snd (getCatalog demo_env demo_world))"
    by (simp add: ensure_setappDir_def demo_env_def)
  have c: "''frobnicate'' \<noteq> []" "''frobnicate'' \<noteq> ''install''" "''frobnicate'' \<noteq> ''list''"
    by simp_all
  from unknown_command_exits_zero [OF c 1 demo_getCatalog 3] show ?thesis .
qed

end
